theory Spec2Isabelle
  imports Main "HOL-Library.FSet" "HOL-Library.Finite_Map"
begin

section \<open>The LFU cache of lfu.go\<close>

text \<open>
  The cache of \<^verbatim>\<open>lfu.go\<close> is a pointer graph: a Go map from keys to \<^verbatim>\<open>*kvItem\<close>, a
  \<^verbatim>\<open>container/list\<close> of elements whose values are \<^verbatim>\<open>*freqNode\<close>, each node holding the set
  of its items (a Go map used as a set), and each item pointing back at the list element
  of its node. The model keeps the graph: items and list elements are named by handles,
  the two stores map handles to objects, and the list is the sequence of the handles of
  its elements, front first. A list element and the \<^verbatim>\<open>freqNode\<close> it carries are created
  together and never separated, so one handle names both.

  Go's \<^verbatim>\<open>int\<close> is taken at its width of 64 bits (the 64-bit platforms), as an \<^typ>\<open>int\<close> between
  \<open>- 2^63\<close> and \<open>2^63 - 1\<close>. The sum \<^verbatim>\<open>freq + 1\<close> of \<^verbatim>\<open>increment\<close> wraps around, and the model
  writes the wrap-around out. The counter \<^verbatim>\<open>i\<close> of \<^verbatim>\<open>Evict\<close> runs from 0 to at most \<^verbatim>\<open>n\<close>, which is
  an \<^verbatim>\<open>int\<close>, so \<^verbatim>\<open>i += 1\<close> never wraps. An \<^verbatim>\<open>interface{}\<close> value is an option, \<open>None\<close> for \<^verbatim>\<open>nil\<close>.
  The mutex is not part of the sequential model; the section on interleavings splits \<^verbatim>\<open>Set\<close>
  at the points where it does not hold the lock.
\<close>

type_synonym iref = nat
type_synonym eref = nat
type_synonym 'v iface = "'v option"

record 'v kvItem =
  item_k :: string
  item_v :: "'v iface"
  item_parent :: "eref option"

record freqNode =
  freq :: int
  items :: "iref fset"

record 'v cache =
  cap :: int
  kv :: "(string, iref) fmap"
  freqList :: "eref list"
  nodes :: "eref \<Rightarrow> freqNode"
  kvItems :: "iref \<Rightarrow> 'v kvItem"
  next_elem :: eref
  next_item :: iref

definition New :: "int \<Rightarrow> 'v cache" where
  "New cp = \<lparr>cap = cp, kv = fmempty, freqList = [],
     nodes = (\<lambda>_. \<lparr>freq = 0, items = {||}\<rparr>),
     kvItems = (\<lambda>_. \<lparr>item_k = [], item_v = None, item_parent = None\<rparr>),
     next_elem = 0, next_item = 0\<rparr>"

subsection \<open>The operations of container/list that the cache uses\<close>

definition Len :: "'v cache \<Rightarrow> int" where
  "Len c = int (length (freqList c))"

definition Front :: "'v cache \<Rightarrow> eref option" where
  "Front c = (case freqList c of [] \<Rightarrow> None | e # _ \<Rightarrow> Some e)"

text \<open>\<^verbatim>\<open>e.Next()\<close> is \<^verbatim>\<open>nil\<close> for the last element and for an element that is in no list.\<close>

fun next_in :: "eref list \<Rightarrow> eref \<Rightarrow> eref option" where
  "next_in [] e = None"
| "next_in [x] e = None"
| "next_in (x # y # xs) e = (if x = e then Some y else next_in (y # xs) e)"

definition Next :: "'v cache \<Rightarrow> eref \<Rightarrow> eref option" where
  "Next c e = next_in (freqList c) e"

definition PushFront :: "freqNode \<Rightarrow> 'v cache \<Rightarrow> 'v cache" where
  "PushFront node c =
     c\<lparr>freqList := next_elem c # freqList c,
       nodes := (nodes c)(next_elem c := node),
       next_elem := next_elem c + 1\<rparr>"

fun insert_after :: "eref \<Rightarrow> eref \<Rightarrow> eref list \<Rightarrow> eref list" where
  "insert_after e mark [] = []"
| "insert_after e mark (x # xs) =
     (if x = mark then x # e # xs else x # insert_after e mark xs)"

text \<open>\<^verbatim>\<open>InsertAfter\<close> does nothing when the mark is not an element of the list.\<close>

definition InsertAfter :: "freqNode \<Rightarrow> eref \<Rightarrow> 'v cache \<Rightarrow> 'v cache" where
  "InsertAfter node mark c =
     (if mark \<in> set (freqList c)
      then c\<lparr>freqList := insert_after (next_elem c) mark (freqList c),
             nodes := (nodes c)(next_elem c := node),
             next_elem := next_elem c + 1\<rparr>
      else c)"

definition Remove :: "eref \<Rightarrow> 'v cache \<Rightarrow> 'v cache" where
  "Remove e c = c\<lparr>freqList := remove1 e (freqList c)\<rparr>"

subsection \<open>Updates of the two kinds of object\<close>

definition add_item :: "eref \<Rightarrow> iref \<Rightarrow> 'v cache \<Rightarrow> 'v cache" where
  "add_item e item c =
     c\<lparr>nodes := (nodes c)(e := (nodes c e)\<lparr>items := finsert item (items (nodes c e))\<rparr>)\<rparr>"

definition delete_item :: "eref \<Rightarrow> iref \<Rightarrow> 'v cache \<Rightarrow> 'v cache" where
  "delete_item e item c =
     c\<lparr>nodes := (nodes c)(e := (nodes c e)\<lparr>items := items (nodes c e) |-| {|item|}\<rparr>)\<rparr>"

definition set_parent :: "iref \<Rightarrow> eref option \<Rightarrow> 'v cache \<Rightarrow> 'v cache" where
  "set_parent item p c =
     c\<lparr>kvItems := (kvItems c)(item := (kvItems c item)\<lparr>item_parent := p\<rparr>)\<rparr>"

definition set_v :: "iref \<Rightarrow> 'v iface \<Rightarrow> 'v cache \<Rightarrow> 'v cache" where
  "set_v item x c =
     c\<lparr>kvItems := (kvItems c)(item := (kvItems c item)\<lparr>item_v := x\<rparr>)\<rparr>"

subsection \<open>increment\<close>

text \<open>The value of a sum of two \<^verbatim>\<open>int\<close>s in Go, from its value in the integers.\<close>

definition wrap64 :: "int \<Rightarrow> int" where
  "wrap64 x = (x + 2 ^ 63) mod 2 ^ 64 - 2 ^ 63"

text \<open>
  The result is \<open>None\<close> when the code panics: \<^verbatim>\<open>curr.Value\<close> with \<^verbatim>\<open>curr\<close> nil is the only
  dereference of a pointer that may be nil.
\<close>

definition increment :: "iref \<Rightarrow> 'v cache \<Rightarrow> 'v cache option" where
  "increment item c =
     (case item_parent (kvItems c item) of
        None \<Rightarrow> None
      | Some cur \<Rightarrow>
          let currNode = nodes c cur;
              c1 = (case Next c cur of
                      None \<Rightarrow>
                        InsertAfter \<lparr>freq = wrap64 (freq currNode + 1), items = {|item|}\<rparr> cur c
                    | Some nxt \<Rightarrow>
                        if wrap64 (freq currNode + 1) \<noteq> freq (nodes c nxt)
                        then InsertAfter \<lparr>freq = wrap64 (freq currNode + 1), items = {|item|}\<rparr> cur c
                        else add_item nxt item c);
              c2 = set_parent item (Next c1 cur) c1;
              c3 = delete_item cur item c2
          in Some (if items (nodes c3 cur) = {||} then Remove cur c3 else c3))"

subsection \<open>Evict\<close>

text \<open>
  Go visits the entries of a map in an order it does not specify. The order is a
  parameter of the model: \<open>sel\<close> names the entry that the \<^verbatim>\<open>range\<close> loop yields next among
  those still in the map, and an answer outside the map is read as the least handle, so
  that every \<open>sel\<close> is an order. The loop deletes every entry it visits, so the entries
  still in the map are those not yet visited.
\<close>

type_synonym chooser = "iref fset \<Rightarrow> iref"

definition pick :: "chooser \<Rightarrow> iref fset \<Rightarrow> iref" where
  "pick sel S = (if sel S |\<in>| S then sel S else fMin S)"

text \<open>The body of the \<^verbatim>\<open>range\<close> loop, up to the test of \<^verbatim>\<open>i == n\<close>.\<close>

definition evict_item :: "eref \<Rightarrow> iref \<Rightarrow> 'v cache \<Rightarrow> 'v cache" where
  "evict_item front item c =
     delete_item front item (c\<lparr>kv := fmdrop (item_k (kvItems c item)) (kv c)\<rparr>)"

function range_items :: "chooser \<Rightarrow> int \<Rightarrow> eref \<Rightarrow> 'v cache \<times> int \<Rightarrow> 'v cache \<times> int" where
  "range_items sel n front (c, i) =
     (if items (nodes c front) = {||} then (c, i)
      else
        let item = pick sel (items (nodes c front));
            c' = evict_item front item c;
            i' = i + 1
        in if i' = n then (c', i') else range_items sel n front (c', i'))"
  by pat_completeness auto

lemma pick_in: "S \<noteq> {||} \<Longrightarrow> pick sel S |\<in>| S"
  by (simp add: pick_def)

lemma items_evict_item:
  "items (nodes (evict_item front item c) front) = items (nodes c front) |-| {|item|}"
  by (simp add: evict_item_def delete_item_def)

termination range_items
proof (relation "measure (\<lambda>(sel, n, front, c, i). fcard (items (nodes c front)))", goal_cases)
  case 1
  show ?case by simp
next
  case (2 sel n front c i item c' i')
  have "pick sel (items (nodes c front)) |\<in>| items (nodes c front)"
    using 2(1) by (rule pick_in)
  then have "fcard (items (nodes c front) |-| {|pick sel (items (nodes c front))|})
      < fcard (items (nodes c front))"
    by (rule fcard_fminus1_less)
  then show ?case
    using 2 by (simp only: in_measure prod.case items_evict_item)
qed

text \<open>
  The outer loop of \<^verbatim>\<open>Evict\<close>, from the state and the counter \<^verbatim>\<open>i\<close>. \<^verbatim>\<open>Front()\<close> is not nil
  when \<^verbatim>\<open>Len()\<close> is not 0.
\<close>

function evict_loop :: "chooser \<Rightarrow> int \<Rightarrow> 'v cache \<times> int \<Rightarrow> 'v cache" where
  "evict_loop sel n (c, i) =
     (if i = n \<or> Len c = 0 then c
      else
        case Front c of
          None \<Rightarrow> c
        | Some front \<Rightarrow>
            let (c1, i1) = range_items sel n front (c, i);
                c2 = (if items (nodes c1 front) = {||} then Remove front c1 else c1)
            in evict_loop sel n (c2, i1))"
  by pat_completeness auto

lemma range_items_freqList:
  "range_items sel n front (c, i) = (c1, i1) \<Longrightarrow> freqList c1 = freqList c"
proof (induction sel n front "(c, i)" arbitrary: c i rule: range_items.induct)
  case (1 sel n front c i)
  show ?case
  proof (cases "items (nodes c front) = {||}")
    case True
    with 1(2) show ?thesis by simp
  next
    case False
    let ?c' = "evict_item front (pick sel (items (nodes c front))) c"
    have fl: "freqList ?c' = freqList c"
      by (simp add: evict_item_def delete_item_def)
    show ?thesis
    proof (cases "i + 1 = n")
      case True
      with False 1(2) fl show ?thesis by (simp add: Let_def)
    next
      case nn: False
      from False nn 1(2) have "range_items sel n front (?c', i + 1) = (c1, i1)"
        by (simp add: Let_def)
      from 1(1) [OF False refl refl refl nn this] fl show ?thesis by simp
    qed
  qed
qed

lemma range_items_exhausts:
  "range_items sel n front (c, i) = (c1, i1) \<Longrightarrow> i1 \<noteq> n \<Longrightarrow> items (nodes c1 front) = {||}"
proof (induction sel n front "(c, i)" arbitrary: c i rule: range_items.induct)
  case (1 sel n front c i)
  show ?case
  proof (cases "items (nodes c front) = {||}")
    case True
    with 1(2) show ?thesis by simp
  next
    case False
    let ?c' = "evict_item front (pick sel (items (nodes c front))) c"
    show ?thesis
    proof (cases "i + 1 = n")
      case True
      with False 1(2,3) show ?thesis by (simp add: Let_def)
    next
      case nn: False
      from False nn 1(2) have "range_items sel n front (?c', i + 1) = (c1, i1)"
        by (simp add: Let_def)
      from 1(1) [OF False refl refl refl nn this 1(3)] show ?thesis .
    qed
  qed
qed

termination evict_loop
proof (relation "measure (\<lambda>(sel, n, c, i). if i = n then 0 else Suc (length (freqList c)))", goal_cases)
  case 1
  show ?case by simp
next
  case (2 sel n c i front x c1 i1 c2)
  from 2(3,4) have r: "range_items sel n front (c, i) = (c1, i1)" by simp
  have fl: "freqList c1 = freqList c" using r by (rule range_items_freqList)
  from 2(2) have mem: "front \<in> set (freqList c)"
    by (auto simp: Front_def split: list.splits)
  show ?case
  proof (cases "i1 = n")
    case True
    with 2(1) show ?thesis by simp
  next
    case False
    with r have "items (nodes c1 front) = {||}" by (rule range_items_exhausts)
    with 2(5) have "freqList c2 = remove1 front (freqList c)"
      by (simp add: Remove_def fl)
    with mem have "length (freqList c2) < length (freqList c)"
      by (simp add: length_remove1) (cases "freqList c"; simp)
    with 2(1) False show ?thesis by simp
  qed
qed

definition Evict :: "chooser \<Rightarrow> int \<Rightarrow> 'v cache \<Rightarrow> 'v cache" where
  "Evict sel n c = (if n \<le> 0 then c else evict_loop sel n (c, 0))"

subsection \<open>Size, Set and Get\<close>

definition Size :: "'v cache \<Rightarrow> int" where
  "Size c = int (fcard (fmdom (kv c)))"

text \<open>The test of the first line of \<^verbatim>\<open>Set\<close>, made before the lock is taken.\<close>

definition Set_full :: "'v cache \<Rightarrow> bool" where
  "Set_full c \<longleftrightarrow> cap c > 0 \<and> Size c \<ge> cap c"

definition new_kvItem :: "'v kvItem \<Rightarrow> 'v cache \<Rightarrow> 'v cache" where
  "new_kvItem obj c =
     c\<lparr>kvItems := (kvItems c)(next_item c := obj), next_item := next_item c + 1\<rparr>"

text \<open>
  The rest of \<^verbatim>\<open>Set\<close>, from \<^verbatim>\<open>c.Lock()\<close> to the end. In the first branch the handle of the new
  node is the one that \<open>PushFront\<close> takes, and \<^verbatim>\<open>c.freqList.Front()\<close> is read after it.
\<close>

definition Set_locked :: "string \<Rightarrow> 'v iface \<Rightarrow> 'v cache \<Rightarrow> 'v cache option" where
  "Set_locked k x c =
     (case fmlookup (kv c) k of
        Some item \<Rightarrow> increment item (set_v item x c)
      | None \<Rightarrow>
          let front = Front c;
              item = next_item c;
              c3 =
                (if Len c = 0 \<or> (case front of None \<Rightarrow> True | Some e \<Rightarrow> freq (nodes c e) \<noteq> 1)
                 then
                   let node = next_elem c;
                       c1 = PushFront \<lparr>freq = 1, items = {||}\<rparr> c;
                       c2 = new_kvItem \<lparr>item_k = k, item_v = x, item_parent = Front c1\<rparr> c1
                   in add_item node item c2
                 else
                   let c2 = new_kvItem \<lparr>item_k = k, item_v = x, item_parent = front\<rparr> c
                   in (case front of None \<Rightarrow> c2 | Some e \<Rightarrow> add_item e item c2))
          in Some (c3\<lparr>kv := fmupd k item (kv c3)\<rparr>))"

definition Set :: "chooser \<Rightarrow> string \<Rightarrow> 'v iface \<Rightarrow> 'v cache \<Rightarrow> 'v cache option" where
  "Set sel k x c = Set_locked k x (if Set_full c then Evict sel 1 c else c)"

text \<open>\<^verbatim>\<open>Get\<close> returns the pair \<^verbatim>\<open>(vv, ok)\<close> and the state it leaves.\<close>

definition Get :: "string \<Rightarrow> 'v cache \<Rightarrow> (('v iface \<times> bool) \<times> 'v cache) option" where
  "Get k c =
     (case fmlookup (kv c) k of
        None \<Rightarrow> Some ((None, False), c)
      | Some item \<Rightarrow>
          (case increment item c of
             None \<Rightarrow> None
           | Some c' \<Rightarrow> Some ((item_v (kvItems c item), True), c')))"

subsection \<open>Runs of the cache\<close>

datatype 'v op = OpSet chooser string "'v iface" | OpGet string | OpEvict chooser int | OpSize

fun apply_op :: "'v op \<Rightarrow> 'v cache \<Rightarrow> 'v cache option" where
  "apply_op (OpSet sel k x) c = Set sel k x c"
| "apply_op (OpGet k) c = map_option snd (Get k c)"
| "apply_op (OpEvict sel n) c = Some (Evict sel n c)"
| "apply_op OpSize c = Some c"

fun run :: "'v cache \<Rightarrow> 'v op list \<Rightarrow> 'v cache option" where
  "run c [] = Some c"
| "run c (a # as) = (case apply_op a c of None \<Rightarrow> None | Some c' \<Rightarrow> run c' as)"

text \<open>The states that a cache passes through when its methods are called one after another.\<close>

inductive reachable :: "'v cache \<Rightarrow> bool" where
  r_New: "reachable (New cp)"
| r_Set: "reachable c \<Longrightarrow> Set sel k x c = Some c' \<Longrightarrow> reachable c'"
| r_Get: "reachable c \<Longrightarrow> Get k c = Some (r, c') \<Longrightarrow> reachable c'"
| r_Evict: "reachable c \<Longrightarrow> reachable (Evict sel n c)"

subsection \<open>The invariant\<close>

text \<open>The frequency of the bucket of a list element, and of the bucket that holds a key.\<close>

definition freq_at :: "'v cache \<Rightarrow> eref \<Rightarrow> int" where
  "freq_at c = (\<lambda>e. freq (nodes c e))"

definition members :: "'v cache \<Rightarrow> eref \<Rightarrow> iref fset" where
  "members c = (\<lambda>e. items (nodes c e))"

definition key_freq :: "'v cache \<Rightarrow> string \<Rightarrow> int option" where
  "key_freq c k =
     (case fmlookup (kv c) k of
        None \<Rightarrow> None
      | Some item \<Rightarrow> map_option (freq_at c) (item_parent (kvItems c item)))"

text \<open>The list: no element twice, every element allocated.\<close>

definition list_ok :: "'v cache \<Rightarrow> bool" where
  "list_ok c \<longleftrightarrow> distinct (freqList c) \<and> (\<forall>e \<in> set (freqList c). e < next_elem c)"

text \<open>The frequencies: from 1, and strictly increasing from the front of the list.\<close>

definition order_ok :: "'v cache \<Rightarrow> bool" where
  "order_ok c \<longleftrightarrow>
     sorted_wrt (<) (map (freq_at c) (freqList c)) \<and> (\<forall>e \<in> set (freqList c). 1 \<le> freq_at c e)"

text \<open>No frequency of the list is above \<open>m\<close>.\<close>

definition freq_le :: "'v cache \<Rightarrow> int \<Rightarrow> bool" where
  "freq_le c m \<longleftrightarrow> (\<forall>e \<in> set (freqList c). freq_at c e \<le> m)"

text \<open>Every member of a bucket of the list is the entry of its key, and points back at the bucket.\<close>

definition members_ok :: "'v cache \<Rightarrow> bool" where
  "members_ok c \<longleftrightarrow>
     (\<forall>e \<in> set (freqList c). \<forall>i. i |\<in>| members c e \<longrightarrow>
        fmlookup (kv c) (item_k (kvItems c i)) = Some i \<and> item_parent (kvItems c i) = Some e)"

text \<open>Every entry of the key index carries its key and is a member of the bucket it points at.\<close>

definition index_ok :: "'v cache \<Rightarrow> bool" where
  "index_ok c \<longleftrightarrow>
     (\<forall>k i. fmlookup (kv c) k = Some i \<longrightarrow>
        item_k (kvItems c i) = k \<and> i < next_item c \<and>
        (\<exists>e \<in> set (freqList c). item_parent (kvItems c i) = Some e \<and> i |\<in>| members c e))"

definition no_empty :: "'v cache \<Rightarrow> bool" where
  "no_empty c \<longleftrightarrow> (\<forall>e \<in> set (freqList c). members c e \<noteq> {||})"

text \<open>
  The structure of the pointer graph, which every call keeps, and the whole invariant,
  which holds as long as no frequency has wrapped around.
\<close>

definition struct_inv :: "'v cache \<Rightarrow> bool" where
  "struct_inv c \<longleftrightarrow> list_ok c \<and> members_ok c \<and> index_ok c \<and> no_empty c"

definition cache_inv :: "'v cache \<Rightarrow> bool" where
  "cache_inv c \<longleftrightarrow> struct_inv c \<and> order_ok c"

subsection \<open>Relations between states used in the proofs\<close>

text \<open>The effect of moving item i from bucket cur to bucket tgt, which follows cur.\<close>

definition moved :: "'v cache \<Rightarrow> 'v cache \<Rightarrow> iref \<Rightarrow> eref \<Rightarrow> eref \<Rightarrow> eref list \<Rightarrow> eref list \<Rightarrow> bool" where
  "moved c c' i cur tgt xs ys \<longleftrightarrow>
     kv c' = kv c \<and> next_item c' = next_item c \<and> cap c' = cap c \<and>
     kvItems c' = (kvItems c)(i := (kvItems c i)\<lparr>item_parent := Some tgt\<rparr>) \<and>
     (\<forall>x \<in> set (freqList c). freq_at c' x = freq_at c x) \<and>
     freq_at c' tgt = wrap64 (freq_at c cur + 1) \<and>
     (\<forall>x. x \<noteq> cur \<and> x \<noteq> tgt \<longrightarrow> members c' x = members c x) \<and>
     members c' cur = members c cur |-| {|i|} \<and>
     members c' tgt = finsert i (if tgt \<in> set (freqList c) then members c tgt else {||}) \<and>
     tgt \<noteq> cur \<and> tgt \<notin> set xs \<and> tgt \<notin> set ys \<and>
     tgt < next_elem c' \<and> next_elem c \<le> next_elem c' \<and>
     (freqList c = xs @ cur # ys \<and>
        (case ys of [] \<Rightarrow> True | y # _ \<Rightarrow> freq_at c y \<noteq> wrap64 (freq_at c cur + 1)) \<or>
      freqList c = xs @ cur # tgt # ys \<and> freq_at c tgt = wrap64 (freq_at c cur + 1)) \<and>
     freqList c' = xs @ (if members c cur |-| {|i|} = {||} then [] else [cur]) @ tgt # ys"

definition loop_inv :: "'v cache \<Rightarrow> bool" where
  "loop_inv c \<longleftrightarrow> list_ok c \<and> members_ok c \<and> index_ok c \<and>
     (\<forall>e \<in> set (tl (freqList c)). members c e \<noteq> {||})"

text \<open>What a pass of eviction keeps: the objects, the frequencies, and the index only loses keys.\<close>

definition shrunk :: "'v cache \<Rightarrow> 'v cache \<Rightarrow> bool" where
  "shrunk c c' \<longleftrightarrow> kvItems c' = kvItems c \<and> freq_at c' = freq_at c \<and> cap c' = cap c \<and>
     next_elem c' = next_elem c \<and> next_item c' = next_item c \<and>
     (\<forall>k i. fmlookup (kv c') k = Some i \<longrightarrow> fmlookup (kv c) k = Some i)"

definition pass_ok :: "'v cache \<Rightarrow> int \<Rightarrow> 'v cache \<Rightarrow> int \<Rightarrow> bool" where
  "pass_ok c i c1 i1 \<longleftrightarrow> shrunk c c1 \<and> i \<le> i1 \<and>
     int (fcard (fmdom (kv c))) = int (fcard (fmdom (kv c1))) + (i1 - i)"

definition lowest_first :: "'v cache \<Rightarrow> 'v cache \<Rightarrow> bool" where
  "lowest_first c c' \<longleftrightarrow>
     (\<forall>k k'. k |\<in>| fmdom (kv c) \<longrightarrow> k |\<notin>| fmdom (kv c') \<longrightarrow> k' |\<in>| fmdom (kv c') \<longrightarrow>
        (\<exists>f f'. key_freq c k = Some f \<and> key_freq c k' = Some f' \<and> f \<le> f'))"

subsection \<open>The states of the trace Set(a,1); Set(b,2); Get(a); Set(c,3) with capacity 2\<close>

text \<open>
  The values are numbers. Handles are given out from 0: \<^verbatim>\<open>a\<close> is item 0, \<^verbatim>\<open>b\<close> item 1, \<^verbatim>\<open>c\<close> item
  2; the bucket of frequency 1 made by the first \<^verbatim>\<open>Set\<close> is element 0, the bucket of frequency 2
  made by \<^verbatim>\<open>Get\<close> element 1, the bucket of frequency 1 made by the last \<^verbatim>\<open>Set\<close> element 2. An
  element that has left the list keeps its node in the store.
\<close>

definition s_a :: "nat cache" where
  "s_a = \<lparr>cap = 2, kv = fmupd ''a'' 0 fmempty, freqList = [0],
     nodes = (\<lambda>_. \<lparr>freq = 0, items = {||}\<rparr>)(0 := \<lparr>freq = 1, items = {|0|}\<rparr>),
     kvItems = (\<lambda>_. \<lparr>item_k = [], item_v = None, item_parent = None\<rparr>)
       (0 := \<lparr>item_k = ''a'', item_v = Some 1, item_parent = Some 0\<rparr>),
     next_elem = 1, next_item = 1\<rparr>"

definition s_ab :: "nat cache" where
  "s_ab = \<lparr>cap = 2, kv = fmupd ''b'' 1 (fmupd ''a'' 0 fmempty), freqList = [0],
     nodes = (\<lambda>_. \<lparr>freq = 0, items = {||}\<rparr>)(0 := \<lparr>freq = 1, items = {|1, 0|}\<rparr>),
     kvItems = (\<lambda>_. \<lparr>item_k = [], item_v = None, item_parent = None\<rparr>)
       (0 := \<lparr>item_k = ''a'', item_v = Some 1, item_parent = Some 0\<rparr>,
        1 := \<lparr>item_k = ''b'', item_v = Some 2, item_parent = Some 0\<rparr>),
     next_elem = 1, next_item = 2\<rparr>"

definition s_ab_a :: "nat cache" where
  "s_ab_a = \<lparr>cap = 2, kv = fmupd ''b'' 1 (fmupd ''a'' 0 fmempty), freqList = [0, 1],
     nodes = (\<lambda>_. \<lparr>freq = 0, items = {||}\<rparr>)
       (1 := \<lparr>freq = 2, items = {|0|}\<rparr>, 0 := \<lparr>freq = 1, items = {|1|}\<rparr>),
     kvItems = (\<lambda>_. \<lparr>item_k = [], item_v = None, item_parent = None\<rparr>)
       (0 := \<lparr>item_k = ''a'', item_v = Some 1, item_parent = Some 1\<rparr>,
        1 := \<lparr>item_k = ''b'', item_v = Some 2, item_parent = Some 0\<rparr>),
     next_elem = 2, next_item = 2\<rparr>"

definition s_abc :: "nat cache" where
  "s_abc = \<lparr>cap = 2, kv = fmupd ''c'' 2 (fmdrop ''b'' (fmupd ''b'' 1 (fmupd ''a'' 0 fmempty))),
     freqList = [2, 1],
     nodes = (\<lambda>_. \<lparr>freq = 0, items = {||}\<rparr>)
       (1 := \<lparr>freq = 2, items = {|0|}\<rparr>, 0 := \<lparr>freq = 1, items = {||}\<rparr>,
        2 := \<lparr>freq = 1, items = {|2|}\<rparr>),
     kvItems = (\<lambda>_. \<lparr>item_k = [], item_v = None, item_parent = None\<rparr>)
       (0 := \<lparr>item_k = ''a'', item_v = Some 1, item_parent = Some 1\<rparr>,
        1 := \<lparr>item_k = ''b'', item_v = Some 2, item_parent = Some 0\<rparr>,
        2 := \<lparr>item_k = ''c'', item_v = Some 3, item_parent = Some 2\<rparr>),
     next_elem = 3, next_item = 3\<rparr>"

subsection \<open>The states of a long run of Get\<close>

text \<open>
  The state after \<^verbatim>\<open>Set(a,1)\<close>, \<^verbatim>\<open>Set(b,2)\<close> and then \<open>j\<close> calls of \<^verbatim>\<open>Get(a)\<close>, for \<open>j\<close> from 1, with
  capacity 2. Every \<^verbatim>\<open>Get(a)\<close> makes a new bucket for \<^verbatim>\<open>a\<close> alone, list element \<open>j\<close> at the
  \<open>j\<close>-th call, and removes the bucket that \<^verbatim>\<open>a\<close> leaves empty; \<^verbatim>\<open>b\<close> stays in element 0.
\<close>

definition s_gets :: "nat \<Rightarrow> nat cache" where
  "s_gets j = \<lparr>cap = 2, kv = fmupd ''b'' 1 (fmupd ''a'' 0 fmempty), freqList = [0, j],
     nodes = (\<lambda>e. if e = 0 then \<lparr>freq = 1, items = {|1|}\<rparr>
                 else if e < j then \<lparr>freq = wrap64 (int e + 1), items = {||}\<rparr>
                 else if e = j then \<lparr>freq = wrap64 (int j + 1), items = {|0|}\<rparr>
                 else \<lparr>freq = 0, items = {||}\<rparr>),
     kvItems = (\<lambda>_. \<lparr>item_k = [], item_v = None, item_parent = None\<rparr>)
       (0 := \<lparr>item_k = ''a'', item_v = Some 1, item_parent = Some j\<rparr>,
        1 := \<lparr>item_k = ''b'', item_v = Some 2, item_parent = Some 0\<rparr>),
     next_elem = j + 1, next_item = 2\<rparr>"


subsection \<open>The increment of the specification\<close>





subsection \<open>Sequences of Set\<close>

text \<open>
  A sequence of \<^verbatim>\<open>Set\<close> calls, each with the order of its map iteration, its key and its
  value, and the keys of the sequence.
\<close>

definition sets :: "(chooser \<times> string \<times> 'v iface) list \<Rightarrow> 'v op list" where
  "sets kvs = map (\<lambda>(sel, k, x). OpSet sel k x) kvs"

definition keys_of :: "(chooser \<times> string \<times> 'v iface) list \<Rightarrow> string list" where
  "keys_of kvs = map (\<lambda>(sel, k, x). k) kvs"

subsection \<open>Interleavings of Set\<close>

text \<open>
  A call of \<^verbatim>\<open>Set\<close> holds the lock in two stretches only: inside \<^verbatim>\<open>c.Evict(1)\<close>, which locks and
  unlocks by itself, and from \<^verbatim>\<open>c.Lock()\<close> to the end. The test of the first line is made
  with the lock free. A caller is therefore at one of four places: before the test, after
  a test that was true and before \<^verbatim>\<open>c.Evict(1)\<close>, before \<^verbatim>\<open>c.Lock()\<close>, or returned. Each
  stretch under the lock is one step, which no other caller can interleave with, and the
  test is one step (the reading most favourable to the code).
\<close>

datatype place = AtTest | AtEvict | AtLock | Returned

type_synonym 'v caller = "place \<times> chooser \<times> string \<times> 'v iface"

fun Set_step :: "'v caller \<Rightarrow> 'v cache \<Rightarrow> ('v caller \<times> 'v cache) option" where
  "Set_step (AtTest, sel, k, x) c = Some ((if Set_full c then AtEvict else AtLock, sel, k, x), c)"
| "Set_step (AtEvict, sel, k, x) c = Some ((AtLock, sel, k, x), Evict sel 1 c)"
| "Set_step (AtLock, sel, k, x) c =
     (case Set_locked k x c of None \<Rightarrow> None | Some c' \<Rightarrow> Some ((Returned, sel, k, x), c'))"
| "Set_step (Returned, sel, k, x) c = None"

text \<open>
  Callers run interleaved: a schedule names, step by step, the caller that moves. The
  result is \<open>None\<close> when the schedule names no caller, a caller that has returned, or a
  step that panics.
\<close>

fun interleave :: "nat list \<Rightarrow> 'v caller list \<times> 'v cache \<Rightarrow> ('v caller list \<times> 'v cache) option" where
  "interleave [] (ts, c) = Some (ts, c)"
| "interleave (i # is) (ts, c) =
     (if i < length ts
      then (case Set_step (ts ! i) c of
              None \<Rightarrow> None
            | Some (t, c') \<Rightarrow> interleave is (ts[i := t], c'))
      else None)"


section \<open>Lemmas\<close>

lemma next_in_append:
  "e \<notin> set xs \<Longrightarrow> next_in (xs @ e # ys) e = (case ys of [] \<Rightarrow> None | y # _ \<Rightarrow> Some y)"
proof (induction xs)
  case Nil
  show ?case by (cases ys) simp_all
next
  case (Cons x xs)
  then show ?case by (cases xs) auto
qed

lemma insert_after_append:
  "m \<notin> set xs \<Longrightarrow> insert_after e m (xs @ m # ys) = xs @ m # e # ys"
  by (induction xs) auto

lemma remove1_middle: "m \<notin> set xs \<Longrightarrow> remove1 m (xs @ m # ys) = xs @ ys"
  by (simp add: remove1_append)

lemma increment_fresh:
  assumes par: "item_parent (kvItems c i) = Some cur"
    and L: "freqList c = xs @ cur # ys" and nx: "cur \<notin> set xs"
    and gap: "case ys of [] \<Rightarrow> True | y # _ \<Rightarrow> freq_at c y \<noteq> wrap64 (freq_at c cur + 1)"
    and fresh: "cur \<noteq> next_elem c"
  shows "increment i c = Some (c\<lparr>
      freqList := (if members c cur |-| {|i|} = {||} then xs @ next_elem c # ys
                   else xs @ cur # next_elem c # ys),
      nodes := (nodes c)(next_elem c := \<lparr>freq = wrap64 (freq_at c cur + 1), items = {|i|}\<rparr>,
                 cur := (nodes c cur)\<lparr>items := members c cur |-| {|i|}\<rparr>),
      kvItems := (kvItems c)(i := (kvItems c i)\<lparr>item_parent := Some (next_elem c)\<rparr>),
      next_elem := next_elem c + 1\<rparr>)"
  using assms
  by (cases ys)
     (auto simp: increment_def Next_def InsertAfter_def set_parent_def delete_item_def
       Remove_def freq_at_def members_def next_in_append insert_after_append remove1_middle
       Let_def fun_upd_twist)

lemma increment_merge:
  assumes par: "item_parent (kvItems c i) = Some cur"
    and L: "freqList c = xs @ cur # y # ys" and nx: "cur \<notin> set xs"
    and adj: "freq_at c y = wrap64 (freq_at c cur + 1)"
    and ne: "cur \<noteq> y"
  shows "increment i c = Some (c\<lparr>
      freqList := (if members c cur |-| {|i|} = {||} then xs @ y # ys
                   else xs @ cur # y # ys),
      nodes := (nodes c)(y := (nodes c y)\<lparr>items := finsert i (members c y)\<rparr>,
                 cur := (nodes c cur)\<lparr>items := members c cur |-| {|i|}\<rparr>),
      kvItems := (kvItems c)(i := (kvItems c i)\<lparr>item_parent := Some y\<rparr>)\<rparr>)"
  using assms
  by (auto simp: increment_def Next_def add_item_def set_parent_def delete_item_def
       Remove_def freq_at_def members_def next_in_append remove1_middle
       Let_def fun_upd_twist)

lemma moved_shape:
  "moved c c' i cur tgt xs ys \<Longrightarrow>
     freqList c = xs @ cur # ys \<or> freqList c = xs @ cur # tgt # ys"
  by (auto simp: moved_def)

lemma moved_list_ok:
  assumes ok: "list_ok c" and mv: "moved c c' i cur tgt xs ys"
  shows "list_ok c'"
proof -
  let ?keep = "if members c cur |-| {|i|} = {||} then [] else [cur]"
  note L = moved_shape [OF mv]
  from mv have L': "freqList c' = xs @ ?keep @ tgt # ys"
    and t: "tgt \<noteq> cur" "tgt \<notin> set xs" "tgt \<notin> set ys" "tgt < next_elem c'" "next_elem c \<le> next_elem c'"
    by (simp_all add: moved_def)
  have sub: "set xs \<subseteq> set (freqList c)" "set ys \<subseteq> set (freqList c)" "cur \<in> set (freqList c)"
    using L by auto
  from ok have d: "distinct (freqList c)" and b: "\<forall>e \<in> set (freqList c). e < next_elem c"
    by (simp_all add: list_ok_def)
  have dx: "distinct xs" "distinct ys" "cur \<notin> set xs" "cur \<notin> set ys" "set xs \<inter> set ys = {}"
    using d L by auto
  have "distinct (freqList c')"
    using dx t L' by auto
  moreover have "\<forall>e \<in> set (freqList c'). e < next_elem c'"
  proof
    fix e assume e: "e \<in> set (freqList c')"
    show "e < next_elem c'"
    proof (cases "e = tgt")
      case True
      with t show ?thesis by simp
    next
      case False
      with e L' have "e \<in> set (freqList c)" using sub by (auto split: if_splits)
      with b t show ?thesis by fastforce
    qed
  qed
  ultimately show ?thesis by (simp add: list_ok_def)
qed

text \<open>The order of the frequencies survives a move as long as the sum does not wrap.\<close>

lemma wrap64_id: "- (2 ^ 63) \<le> x \<Longrightarrow> x < 2 ^ 63 \<Longrightarrow> wrap64 x = x"
  by (simp add: wrap64_def)

lemma moved_order_ok:
  assumes ok: "order_ok c" and d: "distinct (freqList c)" and mv: "moved c c' i cur tgt xs ys"
    and small: "freq_at c cur < 2 ^ 63 - 1"
  shows "order_ok c'"
proof -
  let ?keep = "if members c cur |-| {|i|} = {||} then [] else [cur]"
  let ?f = "freq_at c cur"
  note L = moved_shape [OF mv]
  from mv have L': "freqList c' = xs @ ?keep @ tgt # ys"
    and fr: "\<forall>x \<in> set (freqList c). freq_at c' x = freq_at c x"
    and ft: "freq_at c' tgt = wrap64 (?f + 1)"
    by (simp_all add: moved_def)
  from ok have s: "sorted_wrt (<) (map (freq_at c) (freqList c))"
    and ge: "\<forall>e \<in> set (freqList c). 1 \<le> freq_at c e"
    by (simp_all add: order_ok_def)
  have cur: "cur \<in> set (freqList c)" using L by auto
  with ge have "1 \<le> ?f" by simp
  with small have w: "wrap64 (?f + 1) = ?f + 1" by (intro wrap64_id) simp_all
  have sub: "set xs \<subseteq> set (freqList c)" "set ys \<subseteq> set (freqList c)"
    using L by auto
  have sx: "sorted_wrt (<) (map (freq_at c) xs)" "sorted_wrt (<) (map (freq_at c) ys)"
    "\<forall>x \<in> set xs. freq_at c x < ?f"
    using s L by (auto simp: sorted_wrt_append)
  have g: "\<forall>y \<in> set ys. ?f + 1 < freq_at c y"
  proof (cases "freqList c = xs @ cur # tgt # ys")
    case True
    with mv d have "freq_at c tgt = ?f + 1"
      by (auto simp: moved_def w)
    with s True show ?thesis by (auto simp: sorted_wrt_append)
  next
    case False
    with mv have Lf: "freqList c = xs @ cur # ys"
      and gp0: "case ys of [] \<Rightarrow> True | y # _ \<Rightarrow> freq_at c y \<noteq> wrap64 (?f + 1)"
      by (auto simp: moved_def)
    note gp = gp0 [unfolded w]
    show ?thesis
    proof (cases ys)
      case Nil
      then show ?thesis by simp
    next
      case (Cons y ys')
      with s Lf gp have "?f < freq_at c y" "freq_at c y \<noteq> ?f + 1" "\<forall>z \<in> set ys'. freq_at c y < freq_at c z"
        by (auto simp: sorted_wrt_append)
      with Cons show ?thesis by auto
    qed
  qed
  have m: "map (freq_at c') xs = map (freq_at c) xs" "map (freq_at c') ys = map (freq_at c) ys"
    "freq_at c' cur = ?f"
    using fr sub cur by auto
  have "sorted_wrt (<) (map (freq_at c') (freqList c'))"
  proof -
    have s1: "sorted_wrt (<) (map (freq_at c') xs)" "sorted_wrt (<) (map (freq_at c') ys)"
      by (simp_all only: m sx)
    have s2: "\<forall>x \<in> set xs. freq_at c' x < ?f"
      "\<forall>y \<in> set ys. ?f + 1 < freq_at c' y"
      using sx(3) g fr sub by auto
    show ?thesis
      unfolding L' using s1 s2 m(3) ft w by (fastforce simp: sorted_wrt_append)
  qed
  moreover have "\<forall>e \<in> set (freqList c'). 1 \<le> freq_at c' e"
  proof
    fix e assume e: "e \<in> set (freqList c')"
    show "1 \<le> freq_at c' e"
    proof (cases "e = tgt")
      case True
      with ft w \<open>1 \<le> ?f\<close> show ?thesis by simp
    next
      case False
      with e L' have "e \<in> set (freqList c)" using sub cur by (auto split: if_splits)
      with fr ge show ?thesis by simp
    qed
  qed
  ultimately show ?thesis by (simp add: order_ok_def)
qed

lemma moved_freq_le:
  assumes le: "freq_le c m" and mv: "moved c c' i cur tgt xs ys" and small: "m < 2 ^ 63 - 1"
    and ge: "\<forall>e \<in> set (freqList c). 1 \<le> freq_at c e"
  shows "freq_le c' (m + 1)"
  unfolding freq_le_def
proof
  fix e assume e: "e \<in> set (freqList c')"
  note L = moved_shape [OF mv]
  from mv have L': "freqList c' = xs @ (if members c cur |-| {|i|} = {||} then [] else [cur]) @ tgt # ys"
    and fr: "\<forall>x \<in> set (freqList c). freq_at c' x = freq_at c x"
    and ft: "freq_at c' tgt = wrap64 (freq_at c cur + 1)"
    by (simp_all add: moved_def)
  have cur: "cur \<in> set (freqList c)" using L by auto
  with le ge have c: "freq_at c cur \<le> m" "1 \<le> freq_at c cur" by (simp_all add: freq_le_def)
  with small have w: "wrap64 (freq_at c cur + 1) = freq_at c cur + 1"
    by (intro wrap64_id) simp_all
  show "freq_at c' e \<le> m + 1"
  proof (cases "e = tgt")
    case True
    with ft w c show ?thesis by simp
  next
    case False
    with e L' L have "e \<in> set (freqList c)" by (auto split: if_splits)
    with fr le show ?thesis by (fastforce simp: freq_le_def)
  qed
qed

lemma moved_members_ok:
  assumes inv: "struct_inv c" and mv: "moved c c' i cur tgt xs ys"
    and par: "item_parent (kvItems c i) = Some cur" and mem: "i |\<in>| members c cur"
  shows "members_ok c'"
  unfolding members_ok_def
proof (intro ballI allI impI)
  fix e j assume e: "e \<in> set (freqList c')" and j: "j |\<in>| members c' e"
  from inv have mo: "members_ok c" and d: "distinct (freqList c)"
    by (simp_all add: struct_inv_def list_ok_def)
  note L = moved_shape [OF mv]
  from mv have L': "freqList c' = xs @ (if members c cur |-| {|i|} = {||} then [] else [cur]) @ tgt # ys"
    and K: "kvItems c' = (kvItems c)(i := (kvItems c i)\<lparr>item_parent := Some tgt\<rparr>)"
    and kv: "kv c' = kv c"
    and mo': "\<forall>x. x \<noteq> cur \<and> x \<noteq> tgt \<longrightarrow> members c' x = members c x"
    and mc: "members c' cur = members c cur |-| {|i|}"
    and mt: "members c' tgt = finsert i (if tgt \<in> set (freqList c) then members c tgt else {||})"
    and t: "tgt \<noteq> cur"
    by (simp_all add: moved_def)
  have cur: "cur \<in> set (freqList c)" using L by auto
  from mo cur mem have ki: "fmlookup (kv c) (item_k (kvItems c i)) = Some i"
    by (simp add: members_ok_def)
  have old: "\<And>x. x \<in> set (freqList c) \<Longrightarrow> j |\<in>| members c x \<Longrightarrow>
      fmlookup (kv c) (item_k (kvItems c j)) = Some j \<and> item_parent (kvItems c j) = Some x"
    using mo by (simp add: members_ok_def)
  show "fmlookup (kv c') (item_k (kvItems c' j)) = Some j \<and> item_parent (kvItems c' j) = Some e"
  proof (cases "j = i")
    case True
    have "e = tgt"
    proof (rule ccontr)
      assume ne: "e \<noteq> tgt"
      show False
      proof (cases "e = cur")
        case True
        with j mc \<open>j = i\<close> show False by simp
      next
        case False
        with ne mo' j have "i |\<in>| members c e" using \<open>j = i\<close> by simp
        moreover from e L' L ne have "e \<in> set (freqList c)" by (auto split: if_splits)
        ultimately have "item_parent (kvItems c i) = Some e" using old \<open>j = i\<close> by simp
        with par False show False by simp
      qed
    qed
    with True K kv ki show ?thesis by simp
  next
    case False
    have "e \<in> set (freqList c) \<and> j |\<in>| members c e"
    proof (cases "e = tgt")
      case True
      with j mt False show ?thesis by (auto split: if_splits)
    next
      case ne: False
      with e L' L have "e \<in> set (freqList c)" by (auto split: if_splits)
      moreover have "j |\<in>| members c e"
        using j mc mo' ne by (cases "e = cur") auto
      ultimately show ?thesis by simp
    qed
    with old [of e] False K kv show ?thesis by simp
  qed
qed

lemma moved_index_ok:
  assumes inv: "struct_inv c" and mv: "moved c c' i cur tgt xs ys"
    and par: "item_parent (kvItems c i) = Some cur" and mem: "i |\<in>| members c cur"
  shows "index_ok c'"
  unfolding index_ok_def
proof (intro allI impI)
  fix k j assume "fmlookup (kv c') k = Some j"
  from inv have io: "index_ok c" by (simp add: struct_inv_def)
  note L = moved_shape [OF mv]
  from mv have L': "freqList c' = xs @ (if members c cur |-| {|i|} = {||} then [] else [cur]) @ tgt # ys"
    and K: "kvItems c' = (kvItems c)(i := (kvItems c i)\<lparr>item_parent := Some tgt\<rparr>)"
    and kv: "kv c' = kv c" and ni: "next_item c' = next_item c"
    and mo': "\<forall>x. x \<noteq> cur \<and> x \<noteq> tgt \<longrightarrow> members c' x = members c x"
    and mc: "members c' cur = members c cur |-| {|i|}"
    and mt: "members c' tgt = finsert i (if tgt \<in> set (freqList c) then members c tgt else {||})"
    and t: "tgt \<noteq> cur"
    by (simp_all add: moved_def)
  from \<open>fmlookup (kv c') k = Some j\<close> kv have kj: "fmlookup (kv c) k = Some j" by simp
  with io obtain e where old: "item_k (kvItems c j) = k" "j < next_item c"
    "e \<in> set (freqList c)" "item_parent (kvItems c j) = Some e" "j |\<in>| members c e"
    by (auto simp: index_ok_def)
  show "item_k (kvItems c' j) = k \<and> j < next_item c' \<and>
      (\<exists>e \<in> set (freqList c'). item_parent (kvItems c' j) = Some e \<and> j |\<in>| members c' e)"
  proof (cases "j = i")
    case True
    have "tgt \<in> set (freqList c')" using L' by simp
    moreover have "i |\<in>| members c' tgt" using mt by simp
    ultimately show ?thesis using True old K ni by auto
  next
    case False
    have e': "e \<in> set (freqList c')"
    proof (cases "e = cur")
      case True
      with old(5) False have "members c cur |-| {|i|} \<noteq> {||}" by auto
      with True L' show ?thesis by simp
    next
      case False
      with old(3) L L' show ?thesis by auto
    qed
    have "j |\<in>| members c' e"
    proof (cases "e = cur")
      case True
      with mc old(5) False show ?thesis by simp
    next
      case ne: False
      show ?thesis
      proof (cases "e = tgt")
        case True
        with mt old(3,5) show ?thesis by simp
      next
        case False
        with ne mo' old(5) show ?thesis by simp
      qed
    qed
    with e' False old K ni show ?thesis by auto
  qed
qed

lemma moved_no_empty:
  assumes inv: "struct_inv c" and mv: "moved c c' i cur tgt xs ys"
  shows "no_empty c'"
  unfolding no_empty_def
proof
  fix e assume e: "e \<in> set (freqList c')"
  from inv have ne: "\<forall>e \<in> set (freqList c). members c e \<noteq> {||}"
    by (simp add: struct_inv_def no_empty_def)
  note L = moved_shape [OF mv]
  from mv have L': "freqList c' = xs @ (if members c cur |-| {|i|} = {||} then [] else [cur]) @ tgt # ys"
    and mo': "\<forall>x. x \<noteq> cur \<and> x \<noteq> tgt \<longrightarrow> members c' x = members c x"
    and mc: "members c' cur = members c cur |-| {|i|}"
    and mt: "members c' tgt = finsert i (if tgt \<in> set (freqList c) then members c tgt else {||})"
    by (simp_all add: moved_def)
  show "members c' e \<noteq> {||}"
  proof (cases "e = tgt")
    case True
    with mt show ?thesis by simp
  next
    case nt: False
    show ?thesis
    proof (cases "e = cur")
      case True
      from inv have "distinct (freqList c)" by (simp add: struct_inv_def list_ok_def)
      with L have "cur \<notin> set xs" "cur \<notin> set ys" by auto
      with e L' nt True have "members c cur |-| {|i|} \<noteq> {||}"
        by (auto split: if_splits)
      with True mc show ?thesis by simp
    next
      case False
      with nt e L L' have "e \<in> set (freqList c)" by (auto split: if_splits)
      with ne mo' nt False show ?thesis by simp
    qed
  qed
qed

lemma moved_inv:
  assumes "struct_inv c" "moved c c' i cur tgt xs ys"
    "item_parent (kvItems c i) = Some cur" "i |\<in>| members c cur"
  shows "struct_inv c'"
proof -
  have "list_ok c'" using assms(1,2) moved_list_ok by (auto simp: struct_inv_def)
  moreover have "members_ok c'" using assms by (rule moved_members_ok)
  moreover have "index_ok c'" using assms by (rule moved_index_ok)
  moreover have "no_empty c'" using assms(1,2) by (rule moved_no_empty)
  ultimately show ?thesis by (simp add: struct_inv_def)
qed

lemma increment_moved:
  assumes inv: "struct_inv c" and look: "fmlookup (kv c) k = Some i"
  shows "\<exists>c' cur tgt xs ys. increment i c = Some c' \<and> item_parent (kvItems c i) = Some cur \<and>
     i |\<in>| members c cur \<and> moved c c' i cur tgt xs ys"
proof -
  from inv have lo: "list_ok c" and io: "index_ok c" by (simp_all add: struct_inv_def)
  from io look obtain cur where cur: "cur \<in> set (freqList c)"
    and par: "item_parent (kvItems c i) = Some cur" and mem: "i |\<in>| members c cur"
    by (auto simp: index_ok_def)
  from cur obtain xs zs where L: "freqList c = xs @ cur # zs" and nx: "cur \<notin> set xs"
    by (auto dest: split_list_first)
  from lo L have d: "distinct (xs @ cur # zs)"
    and lt: "\<forall>x \<in> set (xs @ cur # zs). x < next_elem c"
    by (auto simp: list_ok_def)
  let ?e = "next_elem c"
  show ?thesis
  proof (cases "case zs of [] \<Rightarrow> True | y # _ \<Rightarrow> freq_at c y \<noteq> wrap64 (freq_at c cur + 1)")
    case True
    from lt have fresh: "cur \<noteq> ?e" by auto
    note st = increment_fresh [OF par L nx True fresh]
    have e: "?e \<notin> set xs" "?e \<notin> set zs" "?e \<notin> set (freqList c)" using lt L by auto
    have "moved c (the (increment i c)) i cur ?e xs zs"
      unfolding st option.sel moved_def
      using L e fresh True lt by (auto simp: freq_at_def members_def)
    moreover from st obtain c' where "increment i c = Some c'" by blast
    ultimately show ?thesis using par mem by (metis option.sel)
  next
    case False
    then obtain y ys where zs: "zs = y # ys" and adj: "freq_at c y = wrap64 (freq_at c cur + 1)"
      by (auto split: list.splits)
    from d zs have ne: "cur \<noteq> y" "y \<notin> set xs" "y \<notin> set ys" by auto
    note st = increment_merge [OF par L [unfolded zs] nx adj ne(1)]
    have "moved c (the (increment i c)) i cur y xs ys"
      unfolding st option.sel moved_def
      using L zs ne lt adj by (auto simp: freq_at_def members_def)
    moreover from st obtain c' where "increment i c = Some c'" by blast
    ultimately show ?thesis using par mem by (metis option.sel)
  qed
qed

lemma sorted_agree:
  assumes "sorted_wrt (<) (map f xs)" and "\<forall>x \<in> set xs. g x = f x"
  shows "sorted_wrt (<) (map g xs)"
proof -
  from assms(2) have "map g xs = map f xs" by simp
  with assms(1) show ?thesis by (simp only:)
qed

lemma New_inv: "cache_inv (New cp)"
  by (simp add: cache_inv_def struct_inv_def order_ok_def list_ok_def members_ok_def
      index_ok_def no_empty_def New_def)

lemma New_freq_le: "freq_le (New cp) m"
  by (simp add: freq_le_def New_def)

lemma set_v_inv: "struct_inv c \<Longrightarrow> struct_inv (set_v i x c)"
  by (simp add: struct_inv_def list_ok_def members_ok_def index_ok_def no_empty_def set_v_def
      freq_at_def members_def)

lemma set_v_freqs:
  "freq_at (set_v i x c) = freq_at c" "freqList (set_v i x c) = freqList c"
  by (simp_all add: set_v_def freq_at_def)

lemma Set_locked_new_push:
  assumes "fmlookup (kv c) k = None"
    and "case freqList c of [] \<Rightarrow> True | e # _ \<Rightarrow> freq_at c e \<noteq> 1"
  shows "Set_locked k x c = Some (c\<lparr>
      kv := fmupd k (next_item c) (kv c),
      freqList := next_elem c # freqList c,
      nodes := (nodes c)(next_elem c := \<lparr>freq = 1, items = {|next_item c|}\<rparr>),
      kvItems := (kvItems c)(next_item c :=
        \<lparr>item_k = k, item_v = x, item_parent = Some (next_elem c)\<rparr>),
      next_elem := next_elem c + 1,
      next_item := next_item c + 1\<rparr>)"
  using assms
  by (auto simp: Set_locked_def Front_def Len_def PushFront_def new_kvItem_def add_item_def
        freq_at_def Let_def split: list.splits)

lemma Set_locked_new_reuse:
  assumes "fmlookup (kv c) k = None"
    and "freqList c = e # es" and "freq_at c e = 1"
  shows "Set_locked k x c = Some (c\<lparr>
      kv := fmupd k (next_item c) (kv c),
      nodes := (nodes c)(e := (nodes c e)\<lparr>items := finsert (next_item c) (members c e)\<rparr>),
      kvItems := (kvItems c)(next_item c :=
        \<lparr>item_k = k, item_v = x, item_parent = Some e\<rparr>),
      next_item := next_item c + 1\<rparr>)"
  using assms
  by (auto simp: Set_locked_def Front_def Len_def new_kvItem_def add_item_def
        freq_at_def members_def Let_def)

lemma member_lt:
  assumes "struct_inv c" "e \<in> set (freqList c)" "j |\<in>| members c e"
  shows "j < next_item c" "fmlookup (kv c) (item_k (kvItems c j)) = Some j"
    "item_parent (kvItems c j) = Some e"
  using assms by (auto simp: struct_inv_def members_ok_def index_ok_def)

lemma Set_locked_new_inv:
  assumes inv: "struct_inv c" and look: "fmlookup (kv c) k = None"
  shows "\<exists>c'. Set_locked k x c = Some c' \<and> struct_inv c' \<and>
      fmdom (kv c') = finsert k (fmdom (kv c))"
proof (cases "case freqList c of [] \<Rightarrow> True | e # _ \<Rightarrow> freq_at c e \<noteq> 1")
  case True
  note st = Set_locked_new_push [OF look True, of x]
  let ?c' = "the (Set_locked k x c)"
  from inv have lo: "list_ok c" and mo: "members_ok c" and io: "index_ok c" and ne: "no_empty c"
    by (simp_all add: struct_inv_def)
  have "list_ok ?c'"
    unfolding st option.sel using lo
    by (auto simp: list_ok_def less_Suc_eq)
  moreover have "members_ok ?c'"
    unfolding st option.sel members_ok_def
  proof (intro ballI allI impI, goal_cases)
    case (1 e j)
    then show ?case
      using member_lt [OF inv, of e j] look lo
      by (auto simp: members_def list_ok_def split: if_splits)
  qed
  moreover have "index_ok ?c'"
    unfolding st option.sel index_ok_def
  proof (intro allI impI, goal_cases)
    case (1 k' j)
    show ?case
    proof (cases "k' = k")
      case True
      with 1 show ?thesis by (simp add: members_def)
    next
      case False
      with 1 have "fmlookup (kv c) k' = Some j" by simp
      with io obtain e where "item_k (kvItems c j) = k'" "j < next_item c"
        "e \<in> set (freqList c)" "item_parent (kvItems c j) = Some e" "j |\<in>| members c e"
        by (auto simp: index_ok_def)
      moreover from this lo have "e \<noteq> next_elem c" by (auto simp: list_ok_def)
      ultimately show ?thesis by (auto simp: members_def)
    qed
  qed
  moreover have "no_empty ?c'"
    unfolding st option.sel using ne lo
    by (auto simp: no_empty_def members_def list_ok_def)
  moreover have "fmdom (kv ?c') = finsert k (fmdom (kv c))"
    unfolding st option.sel by simp
  ultimately show ?thesis using st by (simp add: struct_inv_def)
next
  case False
  then obtain e es where L: "freqList c = e # es" and f1: "freq_at c e = 1"
    by (auto split: list.splits)
  note st = Set_locked_new_reuse [OF look L f1, of x]
  let ?c' = "the (Set_locked k x c)"
  from inv have lo: "list_ok c" and mo: "members_ok c" and io: "index_ok c" and ne: "no_empty c"
    by (simp_all add: struct_inv_def)
  have "list_ok ?c'"
    unfolding st option.sel using lo
    by (simp add: list_ok_def)
  moreover have "members_ok ?c'"
    unfolding st option.sel members_ok_def
  proof (intro ballI allI impI, goal_cases)
    case (1 e' j)
    then show ?case
      using member_lt [OF inv, of e' j] look L
      by (auto simp: members_def split: if_splits)
  qed
  moreover have "index_ok ?c'"
    unfolding st option.sel index_ok_def
  proof (intro allI impI, goal_cases)
    case (1 k' j)
    show ?case
    proof (cases "k' = k")
      case True
      with 1 L show ?thesis by (simp add: members_def)
    next
      case False
      with 1 have "fmlookup (kv c) k' = Some j" by simp
      with io obtain e' where "item_k (kvItems c j) = k'" "j < next_item c"
        "e' \<in> set (freqList c)" "item_parent (kvItems c j) = Some e'" "j |\<in>| members c e'"
        by (auto simp: index_ok_def)
      then show ?thesis by (auto simp: members_def)
    qed
  qed
  moreover have "no_empty ?c'"
    unfolding st option.sel using ne
    by (auto simp: no_empty_def members_def)
  moreover have "fmdom (kv ?c') = finsert k (fmdom (kv c))"
    unfolding st option.sel by simp
  ultimately show ?thesis using st by (simp add: struct_inv_def)
qed

lemma Set_locked_new_freqs:
  assumes lo: "list_ok c" and look: "fmlookup (kv c) k = None"
    and st: "Set_locked k x c = Some c'"
  shows "map (freq_at c') (freqList c') =
     (if (case freqList c of [] \<Rightarrow> True | e # _ \<Rightarrow> freq_at c e \<noteq> 1)
      then 1 # map (freq_at c) (freqList c) else map (freq_at c) (freqList c))"
proof (cases "case freqList c of [] \<Rightarrow> True | e # _ \<Rightarrow> freq_at c e \<noteq> 1")
  case True
  from lo have "\<forall>e \<in> set (freqList c). e \<noteq> next_elem c" by (auto simp: list_ok_def)
  then have "map (\<lambda>a. freq (if a = next_elem c then \<lparr>freq = 1, items = {|next_item c|}\<rparr>
      else nodes c a)) (freqList c) = map (\<lambda>a. freq (nodes c a)) (freqList c)"
    by simp
  with True st show ?thesis
    unfolding Set_locked_new_push [OF look True, of x]
    by (auto simp: freq_at_def)
next
  case False
  then obtain e es where L: "freqList c = e # es" and f1: "freq_at c e = 1"
    by (auto split: list.splits)
  have "(\<lambda>a. freq (if a = e then nodes c e\<lparr>items := finsert (next_item c) (members c e)\<rparr>
      else nodes c a)) = (\<lambda>a. freq (nodes c a))"
    by (auto simp: fun_eq_iff)
  with False st show ?thesis
    unfolding Set_locked_new_reuse [OF look L f1, of x]
    by (auto simp: freq_at_def)
qed

lemma order_ok_freqs: 
  "order_ok c \<longleftrightarrow> sorted_wrt (<) (map (freq_at c) (freqList c)) \<and>
     (\<forall>f \<in> set (map (freq_at c) (freqList c)). 1 \<le> f)"
  by (auto simp: order_ok_def)

lemma freq_le_freqs:
  "freq_le c m \<longleftrightarrow> (\<forall>f \<in> set (map (freq_at c) (freqList c)). f \<le> m)"
  by (auto simp: freq_le_def)

lemma Set_locked_new_order:
  assumes lo: "list_ok c" and look: "fmlookup (kv c) k = None"
    and st: "Set_locked k x c = Some c'" and ok: "order_ok c"
  shows "order_ok c'" and "freq_le c m \<Longrightarrow> 1 \<le> m \<Longrightarrow> freq_le c' m"
proof -
  note fs = Set_locked_new_freqs [OF lo look st]
  show "order_ok c'"
  proof (cases "case freqList c of [] \<Rightarrow> True | e # _ \<Rightarrow> freq_at c e \<noteq> 1")
    case True
    have "\<forall>f \<in> set (map (freq_at c) (freqList c)). 1 < f"
    proof (cases "freqList c")
      case Nil
      then show ?thesis by simp
    next
      case (Cons e es)
      with True ok have "1 < freq_at c e" "\<forall>y \<in> set es. freq_at c e < freq_at c y"
        by (auto simp: order_ok_def)
      with Cons show ?thesis by auto
    qed
    with True ok show ?thesis unfolding order_ok_freqs fs by auto
  next
    case False
    with ok show ?thesis unfolding order_ok_freqs fs by simp
  qed
  show "freq_le c' m" if "freq_le c m" "1 \<le> m"
    using that unfolding freq_le_freqs fs by auto
qed

lemma struct_inv_loop_inv: "struct_inv c \<Longrightarrow> loop_inv c"
  by (cases "freqList c") (auto simp: struct_inv_def loop_inv_def no_empty_def)

lemma loop_inv_struct_inv:
  "loop_inv c \<Longrightarrow> (case freqList c of [] \<Rightarrow> True | e # _ \<Rightarrow> members c e \<noteq> {||}) \<Longrightarrow> struct_inv c"
  by (cases "freqList c") (auto simp: struct_inv_def loop_inv_def no_empty_def)

lemma shrunk_refl: "shrunk c c"
  by (simp add: shrunk_def)

lemma shrunk_trans: "shrunk a b \<Longrightarrow> shrunk b c \<Longrightarrow> shrunk a c"
  by (simp add: shrunk_def)

lemma freq_at_items_upd:
  "freq_at (c\<lparr>kv := m, nodes := (nodes c)(e := (nodes c e)\<lparr>items := S\<rparr>)\<rparr>) = freq_at c"
  by (auto simp: freq_at_def fun_eq_iff)

lemma evict_item_step:
  assumes li: "loop_inv c" and L: "freqList c = front # es" and it: "item |\<in>| members c front"
  defines "c' \<equiv> evict_item front item c"
  shows "loop_inv c'" and "freqList c' = freqList c" and "shrunk c c'"
    and "members c' front = members c front |-| {|item|}"
    and "fmdom (kv c') = fmdom (kv c) |-| {|item_k (kvItems c item)|}"
    and "item_k (kvItems c item) |\<in>| fmdom (kv c)"
    and "key_freq c (item_k (kvItems c item)) = Some (freq_at c front)"
proof -
  let ?key = "item_k (kvItems c item)"
  from li have lo: "list_ok c" and mo: "members_ok c" and io: "index_ok c"
    and ne: "\<forall>e \<in> set (tl (freqList c)). members c e \<noteq> {||}"
    by (simp_all add: loop_inv_def)
  have c': "c' = c\<lparr>kv := fmdrop ?key (kv c),
      nodes := (nodes c)(front := (nodes c front)\<lparr>items := members c front |-| {|item|}\<rparr>)\<rparr>"
    by (simp add: c'_def evict_item_def delete_item_def members_def)
  have fr: "freq_at c' = freq_at c" unfolding c' by (rule freq_at_items_upd)
  have mem': "\<And>e. members c' e = (if e = front then members c front |-| {|item|} else members c e)"
    by (simp add: c' members_def)
  have kv': "kv c' = fmdrop ?key (kv c)" and K': "kvItems c' = kvItems c"
    and L': "freqList c' = freqList c" and n': "next_elem c' = next_elem c" "next_item c' = next_item c"
    and cp: "cap c' = cap c"
    by (simp_all add: c')
  from mo L it have ki: "fmlookup (kv c) ?key = Some item"
    and pi: "item_parent (kvItems c item) = Some front"
    by (simp_all add: members_ok_def)
  show "freqList c' = freqList c" by (rule L')
  show "members c' front = members c front |-| {|item|}" by (simp add: mem')
  show "fmdom (kv c') = fmdom (kv c) |-| {|?key|}" by (simp add: kv')
  show "?key |\<in>| fmdom (kv c)" using ki by (simp add: fmdomI)
  show "key_freq c ?key = Some (freq_at c front)" using ki pi by (simp add: key_freq_def)
  show "shrunk c c'"
    unfolding shrunk_def using fr K' n' cp kv' by (auto split: if_splits)
  have "list_ok c'" using lo by (simp add: list_ok_def fr L' n')
  moreover have "members_ok c'"
    unfolding members_ok_def
  proof (intro ballI allI impI)
    fix e j assume e: "e \<in> set (freqList c')" and j: "j |\<in>| members c' e"
    from e L' have e0: "e \<in> set (freqList c)" by simp
    from j mem' have j0: "j |\<in>| members c e" by (auto split: if_splits)
    from mo e0 j0 have old: "fmlookup (kv c) (item_k (kvItems c j)) = Some j"
      "item_parent (kvItems c j) = Some e"
      by (simp_all add: members_ok_def)
    have "j \<noteq> item"
    proof
      assume "j = item"
      with old(2) pi have "e = front" by simp
      with j mem' \<open>j = item\<close> show False by simp
    qed
    with old(1) ki have "item_k (kvItems c j) \<noteq> ?key" by auto
    with old show "fmlookup (kv c') (item_k (kvItems c' j)) = Some j \<and>
        item_parent (kvItems c' j) = Some e"
      by (simp add: kv' K')
  qed
  moreover have "index_ok c'"
    unfolding index_ok_def
  proof (intro allI impI)
    fix k j assume "fmlookup (kv c') k = Some j"
    then have k: "k \<noteq> ?key" and kj: "fmlookup (kv c) k = Some j"
      by (auto simp: kv' split: if_splits)
    with io obtain e where old: "item_k (kvItems c j) = k" "j < next_item c"
      "e \<in> set (freqList c)" "item_parent (kvItems c j) = Some e" "j |\<in>| members c e"
      by (auto simp: index_ok_def)
    from old(1) k have "j \<noteq> item" by auto
    with old(5) have "j |\<in>| members c' e" by (cases "e = front") (simp_all add: mem')
    with old show "item_k (kvItems c' j) = k \<and> j < next_item c' \<and>
        (\<exists>e \<in> set (freqList c'). item_parent (kvItems c' j) = Some e \<and> j |\<in>| members c' e)"
      by (auto simp: K' n' L')
  qed
  moreover have "\<forall>e \<in> set (tl (freqList c')). members c' e \<noteq> {||}"
  proof
    fix e assume "e \<in> set (tl (freqList c'))"
    with L L' have e: "e \<in> set es" by simp
    with lo L have "e \<noteq> front" by (auto simp: list_ok_def)
    with ne e L show "members c' e \<noteq> {||}" by (simp add: mem')
  qed
  ultimately show "loop_inv c'" by (simp add: loop_inv_def)
qed

lemma shrunk_key_freq:
  assumes "shrunk c c'" and "k |\<in>| fmdom (kv c')"
  shows "key_freq c' k = key_freq c k"
proof -
  from assms(2) obtain i where i: "fmlookup (kv c') k = Some i" by (auto simp: fmlookup_dom_iff)
  with assms(1) have "fmlookup (kv c) k = Some i" by (simp add: shrunk_def)
  with i assms(1) show ?thesis by (simp add: key_freq_def shrunk_def)
qed

lemma shrunk_dom: "shrunk c c' \<Longrightarrow> k |\<in>| fmdom (kv c') \<Longrightarrow> k |\<in>| fmdom (kv c)"
  by (auto simp: shrunk_def fmlookup_dom_iff)

lemma range_items_props:
  assumes "loop_inv c" and "freqList c = front # es"
    and "range_items sel n front (c, i) = (c1, i1)"
  shows "loop_inv c1 \<and> freqList c1 = freqList c \<and> pass_ok c i c1 i1 \<and> (i < n \<longrightarrow> i1 \<le> n) \<and>
     (\<forall>k. k |\<in>| fmdom (kv c) \<longrightarrow> k |\<notin>| fmdom (kv c1) \<longrightarrow> key_freq c k = Some (freq_at c front))"
  using assms
proof (induction sel n front "(c, i)" arbitrary: c i rule: range_items.induct)
  case (1 sel n front c i)
  show ?case
  proof (cases "members c front = {||}")
    case True
    with 1(4) have "c1 = c" "i1 = i" by (simp_all add: members_def)
    with 1(2) show ?thesis by (simp add: pass_ok_def shrunk_refl)
  next
    case False
    let ?item = "pick sel (items (nodes c front))"
    let ?c' = "evict_item front ?item c"
    let ?key = "item_k (kvItems c ?item)"
    from False have ne: "items (nodes c front) \<noteq> {||}" by (simp add: members_def)
    then have it: "?item |\<in>| members c front" by (simp add: members_def pick_in)
    note step = evict_item_step [OF 1(2,3) it]
    have sz: "int (fcard (fmdom (kv c))) = int (fcard (fmdom (kv ?c'))) + 1"
    proof -
      from step(6) have "Suc (fcard (fmdom (kv c) |-| {|?key|})) = fcard (fmdom (kv c))"
        by (rule fcard_Suc_fminus1)
      with step(5) show ?thesis by simp
    qed
    show ?thesis
    proof (cases "i + 1 = n")
      case True
      with ne 1(4) have r: "c1 = ?c'" "i1 = i + 1" by (simp_all add: Let_def)
      have ev: "\<forall>k. k |\<in>| fmdom (kv c) \<longrightarrow> k |\<notin>| fmdom (kv c1) \<longrightarrow>
          key_freq c k = Some (freq_at c front)"
        using step(5,7) r(1) by auto
      have "pass_ok c i c1 i1"
        unfolding pass_ok_def r using step(3) sz by simp
      moreover have "i < n \<longrightarrow> i1 \<le> n" using r(2) True by simp
      ultimately show ?thesis using ev step(1,2) r(1) by simp
    next
      case nn: False
      from ne nn 1(4) have r: "range_items sel n front (?c', i + 1) = (c1, i1)"
        by (simp add: Let_def)
      from step(2) 1(3) have L': "freqList ?c' = front # es" by simp
      note IH = 1(1) [OF ne refl refl refl nn step(1) L' r]
      from IH have p: "pass_ok ?c' (i + 1) c1 i1" by simp
      have "pass_ok c i c1 i1"
        using p step(3) sz by (auto simp: pass_ok_def intro: shrunk_trans)
      moreover have "\<forall>k. k |\<in>| fmdom (kv c) \<longrightarrow> k |\<notin>| fmdom (kv c1) \<longrightarrow>
          key_freq c k = Some (freq_at c front)"
      proof (intro allI impI)
        fix k assume k: "k |\<in>| fmdom (kv c)" "k |\<notin>| fmdom (kv c1)"
        show "key_freq c k = Some (freq_at c front)"
        proof (cases "k = ?key")
          case True
          with step(7) show ?thesis by simp
        next
          case False
          with k(1) step(5) have k': "k |\<in>| fmdom (kv ?c')" by simp
          with IH k(2) have "key_freq ?c' k = Some (freq_at ?c' front)" by simp
          with shrunk_key_freq [OF step(3) k'] step(3) show ?thesis by (simp add: shrunk_def)
        qed
      qed
      moreover have "i < n \<longrightarrow> i1 \<le> n" using IH nn by auto
      ultimately show ?thesis using IH step(2) by simp
    qed
  qed
qed

lemma key_freq_bucket:
  assumes "index_ok c" and "k |\<in>| fmdom (kv c)"
  shows "\<exists>e \<in> set (freqList c). key_freq c k = Some (freq_at c e)"
proof -
  from assms(2) obtain i where i: "fmlookup (kv c) k = Some i" by (auto simp: fmlookup_dom_iff)
  with assms(1) obtain e where "e \<in> set (freqList c)" "item_parent (kvItems c i) = Some e"
    by (auto simp: index_ok_def)
  with i show ?thesis by (auto simp: key_freq_def)
qed

lemma head_least:
  assumes "order_ok c" and "freqList c = front # es" and "e \<in> set (freqList c)"
  shows "freq_at c front \<le> freq_at c e"
  using assms by (auto simp: order_ok_def)

lemma order_ok_suffix:
  assumes "order_ok c" and "freq_at c' = freq_at c" and "freqList c = pre @ freqList c'"
  shows "order_ok c'"
  using assms by (auto simp: order_ok_def sorted_wrt_append)

lemma index_ok_empty: "index_ok c \<Longrightarrow> freqList c = [] \<Longrightarrow> fmdom (kv c) = {||}"
proof -
  assume a: "index_ok c" "freqList c = []"
  have "fmlookup (kv c) k = None" for k
  proof (cases "fmlookup (kv c) k")
    case (Some i)
    with a show ?thesis by (auto simp: index_ok_def)
  qed simp
  then show ?thesis by (metis fmdom_notD fmlookup_dom_iff fempty_iff fset_eqI option.distinct(1))
qed

lemma Remove_front_inv:
  assumes li: "loop_inv c" and L: "freqList c = front # es" and em: "members c front = {||}"
  shows "struct_inv (Remove front c)"
proof -
  let ?c' = "Remove front c"
  from li have lo: "list_ok c" and mo: "members_ok c" and io: "index_ok c"
    and ne: "\<forall>e \<in> set (tl (freqList c)). members c e \<noteq> {||}"
    by (simp_all add: loop_inv_def)
  have L': "freqList ?c' = es" by (simp add: Remove_def L)
  have same: "freq_at ?c' = freq_at c" "members ?c' = members c" "kv ?c' = kv c"
    "kvItems ?c' = kvItems c" "next_elem ?c' = next_elem c" "next_item ?c' = next_item c"
    by (simp_all add: Remove_def freq_at_def members_def)
  have "list_ok ?c'" using lo L by (auto simp: list_ok_def L' same)
  moreover have "members_ok ?c'" using mo L by (auto simp: members_ok_def L' same)
  moreover have "index_ok ?c'"
    unfolding index_ok_def
  proof (intro allI impI)
    fix k j assume "fmlookup (kv ?c') k = Some j"
    then have "fmlookup (kv c) k = Some j" by (simp add: same)
    with io obtain e where old: "item_k (kvItems c j) = k" "j < next_item c"
      "e \<in> set (freqList c)" "item_parent (kvItems c j) = Some e" "j |\<in>| members c e"
      by (auto simp: index_ok_def)
    from old(5) em have "e \<noteq> front" by auto
    with old(3) L have "e \<in> set es" by simp
    with old show "item_k (kvItems ?c' j) = k \<and> j < next_item ?c' \<and>
        (\<exists>e \<in> set (freqList ?c'). item_parent (kvItems ?c' j) = Some e \<and> j |\<in>| members ?c' e)"
      by (auto simp: same L')
  qed
  moreover have "no_empty ?c'" using ne L by (simp add: no_empty_def L' same)
  ultimately show ?thesis by (simp add: struct_inv_def)
qed

lemma Remove_shrunk: "shrunk c (Remove e c)"
  by (simp add: shrunk_def Remove_def freq_at_def)

lemma evict_loop_props:
  assumes "struct_inv c" and "i \<le> n"
  shows "struct_inv (evict_loop sel n (c, i)) \<and> shrunk c (evict_loop sel n (c, i)) \<and>
     Size (evict_loop sel n (c, i)) = max 0 (Size c - (n - i)) \<and>
     (\<exists>pre. freqList c = pre @ freqList (evict_loop sel n (c, i))) \<and>
     (order_ok c \<longrightarrow> lowest_first c (evict_loop sel n (c, i)))"
  using assms
proof (induction sel n "(c, i)" arbitrary: c i rule: evict_loop.induct)
  case (1 sel n c i)
  note inv = 1(2)
  from inv have io: "index_ok c" and lo: "list_ok c" by (simp_all add: struct_inv_def)
  show ?case
  proof (cases "i = n \<or> Len c = 0")
    case True
    then have r: "evict_loop sel n (c, i) = c"
      by (subst evict_loop.simps) (simp del: evict_loop.simps)
    have "Size c = max 0 (Size c - (n - i))"
    proof (cases "i = n")
      case True
      then show ?thesis by (simp add: Size_def)
    next
      case False
      with True have "freqList c = []" by (simp add: Len_def)
      with io have "fmdom (kv c) = {||}" by (rule index_ok_empty)
      with 1(3) show ?thesis by (simp add: Size_def fcard_fempty)
    qed
    with r inv show ?thesis by (simp add: shrunk_refl lowest_first_def)
  next
    case False
    then obtain front es where L: "freqList c = front # es"
      by (cases "freqList c") (auto simp: Len_def)
    then have F: "Front c = Some front" by (simp add: Front_def)
    obtain c1 i1 where r: "range_items sel n front (c, i) = (c1, i1)" by force
    define c2 where "c2 = (if items (nodes c1 front) = {||} then Remove front c1 else c1)"
    have res: "evict_loop sel n (c, i) = evict_loop sel n (c2, i1)"
      using False F r
      by (subst evict_loop.simps) (simp add: c2_def del: evict_loop.simps range_items.simps)
    from False 1(3) have lt: "i < n" by simp
    note p = range_items_props [OF struct_inv_loop_inv [OF inv] L r]
    from p have li1: "loop_inv c1" and L1: "freqList c1 = front # es"
      and po: "pass_ok c i c1 i1" and le: "i1 \<le> n"
      and ev: "\<forall>k. k |\<in>| fmdom (kv c) \<longrightarrow> k |\<notin>| fmdom (kv c1) \<longrightarrow> key_freq c k = Some (freq_at c front)"
      using L lt by simp_all
    have inv2: "struct_inv c2"
    proof (cases "items (nodes c1 front) = {||}")
      case True
      then have "members c1 front = {||}" by (simp add: members_def)
      with li1 L1 have "struct_inv (Remove front c1)" by (rule Remove_front_inv)
      with True show ?thesis by (simp add: c2_def)
    next
      case False
      then have "case freqList c1 of [] \<Rightarrow> True | e # _ \<Rightarrow> members c1 e \<noteq> {||}"
        by (simp add: L1 members_def)
      with li1 have "struct_inv c1" by (rule loop_inv_struct_inv)
      with False show ?thesis by (simp add: c2_def)
    qed
    have sh12: "shrunk c1 c2" "kv c2 = kv c1"
      by (simp_all add: c2_def shrunk_refl Remove_shrunk) (simp add: Remove_def)
    have suf2: "\<exists>pre. freqList c = pre @ freqList c2"
    proof (cases "items (nodes c1 front) = {||}")
      case True
      then have "freqList c = [front] @ freqList c2" by (simp add: c2_def Remove_def L L1)
      then show ?thesis by blast
    next
      case False
      then have "freqList c = [] @ freqList c2" by (simp add: c2_def L L1)
      then show ?thesis by blast
    qed
    from po have sh1: "shrunk c c1" by (simp add: pass_ok_def)
    with sh12 have sh2: "shrunk c c2" by (blast intro: shrunk_trans)
    note IH = 1(1) [OF False F r [symmetric] refl c2_def inv2 le]
    let ?c' = "evict_loop sel n (c2, i1)"
    from IH have inv': "struct_inv ?c'" and sh': "shrunk c2 ?c'"
      and sz': "Size ?c' = max 0 (Size c2 - (n - i1))"
      and suf': "\<exists>pre. freqList c2 = pre @ freqList ?c'"
      and lf': "order_ok c2 \<longrightarrow> lowest_first c2 ?c'"
      by simp_all
    have "Size c = Size c2 + (i1 - i)"
      using po sh12(2) by (simp add: pass_ok_def Size_def)
    with sz' have sz: "Size ?c' = max 0 (Size c - (n - i))" by simp
    from suf2 suf' have suf: "\<exists>pre. freqList c = pre @ freqList ?c'"
      by (metis append.assoc)
    have lf: "lowest_first c ?c'" if oo: "order_ok c"
      unfolding lowest_first_def
    proof (intro allI impI)
      fix k k' assume k: "k |\<in>| fmdom (kv c)" "k |\<notin>| fmdom (kv ?c')" and k': "k' |\<in>| fmdom (kv ?c')"
      from suf2 obtain pre where "freqList c = pre @ freqList c2" by blast
      with oo sh2 have "order_ok c2" by (auto intro: order_ok_suffix simp: shrunk_def)
      with lf' have lf2: "lowest_first c2 ?c'" by simp
      from sh' k' have k2: "k' |\<in>| fmdom (kv c2)" by (rule shrunk_dom)
      with sh2 have k0: "k' |\<in>| fmdom (kv c)" by (rule shrunk_dom)
      show "\<exists>f f'. key_freq c k = Some f \<and> key_freq c k' = Some f' \<and> f \<le> f'"
      proof (cases "k |\<in>| fmdom (kv c2)")
        case True
        with lf2 k(2) k' obtain f f' where "key_freq c2 k = Some f" "key_freq c2 k' = Some f'" "f \<le> f'"
          unfolding lowest_first_def by blast
        with shrunk_key_freq [OF sh2 True] shrunk_key_freq [OF sh2 k2] show ?thesis by metis
      next
        case False
        with sh12(2) k(1) ev have f: "key_freq c k = Some (freq_at c front)" by simp
        from key_freq_bucket [OF io k0] obtain e where e: "e \<in> set (freqList c)"
          "key_freq c k' = Some (freq_at c e)" by blast
        from head_least [OF oo L e(1)] f e(2) show ?thesis by simp
      qed
    qed
    from inv' sz lf sh2 sh' suf show ?thesis
      unfolding res by (blast intro: shrunk_trans)
  qed
qed

declare evict_loop.simps [simp del] range_items.simps [simp del]

lemma Evict_props:
  assumes "struct_inv c"
  shows "struct_inv (Evict sel n c)" and "shrunk c (Evict sel n c)"
    and "Size (Evict sel n c) = (if n \<le> 0 then Size c else max 0 (Size c - n))"
    and "\<exists>pre. freqList c = pre @ freqList (Evict sel n c)"
    and "order_ok c \<Longrightarrow> lowest_first c (Evict sel n c)"
proof -
  note p = evict_loop_props [OF assms, of 0 n sel]
  show "struct_inv (Evict sel n c)"
    using assms p by (simp add: Evict_def)
  show "shrunk c (Evict sel n c)"
    using p by (simp add: Evict_def shrunk_refl)
  show "Size (Evict sel n c) = (if n \<le> 0 then Size c else max 0 (Size c - n))"
    using p by (simp add: Evict_def)
  show "\<exists>pre. freqList c = pre @ freqList (Evict sel n c)"
    using p by (auto simp: Evict_def)
  show "lowest_first c (Evict sel n c)" if "order_ok c"
    using p that by (auto simp: Evict_def lowest_first_def)
qed

lemma Evict_order:
  assumes "struct_inv c" and "order_ok c"
  shows "order_ok (Evict sel n c)" and "freq_le c m \<Longrightarrow> freq_le (Evict sel n c) m"
proof -
  from Evict_props(4) [OF assms(1), of sel n] obtain pre where
    pre: "freqList c = pre @ freqList (Evict sel n c)" by blast
  have fr: "freq_at (Evict sel n c) = freq_at c"
    using Evict_props(2) [OF assms(1), of sel n] by (simp add: shrunk_def)
  show "order_ok (Evict sel n c)" using assms(2) fr pre by (rule order_ok_suffix)
  show "freq_le (Evict sel n c) m" if "freq_le c m"
    using that pre fr by (auto simp: freq_le_def)
qed

lemma increment_inv:
  assumes "struct_inv c" and "fmlookup (kv c) k = Some i"
  shows "\<exists>c'. increment i c = Some c' \<and> struct_inv c' \<and> kv c' = kv c \<and> cap c' = cap c"
proof -
  from increment_moved [OF assms] obtain c' cur tgt xs ys where
    "increment i c = Some c'" "item_parent (kvItems c i) = Some cur"
    "i |\<in>| members c cur" "moved c c' i cur tgt xs ys"
    by blast
  moreover from this assms(1) have "struct_inv c'" by (blast intro: moved_inv)
  ultimately show ?thesis by (auto simp: moved_def)
qed

lemma increment_order:
  assumes inv: "cache_inv c" and le: "freq_le c m" and small: "m < 2 ^ 63 - 1"
    and look: "fmlookup (kv c) k = Some i" and st: "increment i c = Some c'"
  shows "order_ok c'" and "freq_le c' (m + 1)"
proof -
  from inv have si: "struct_inv c" and oo: "order_ok c" by (simp_all add: cache_inv_def)
  from increment_moved [OF si look] st obtain cur tgt xs ys where
    mv: "moved c c' i cur tgt xs ys" by auto
  from si have d: "distinct (freqList c)" by (simp add: struct_inv_def list_ok_def)
  from moved_shape [OF mv] have "cur \<in> set (freqList c)" by auto
  with le small have "freq_at c cur < 2 ^ 63 - 1" by (auto simp: freq_le_def)
  with oo d mv show "order_ok c'" by (rule moved_order_ok)
  from oo have "\<forall>e \<in> set (freqList c). 1 \<le> freq_at c e" by (simp add: order_ok_def)
  with le mv small show "freq_le c' (m + 1)" by (rule moved_freq_le)
qed

lemma set_v_fields:
  "kv (set_v i x c) = kv c" "cap (set_v i x c) = cap c" "freqList (set_v i x c) = freqList c"
  "nodes (set_v i x c) = nodes c"
  by (simp_all add: set_v_def)

lemma Set_locked_cap:
  assumes "fmlookup (kv c) k = None" and "Set_locked k x c = Some c'"
  shows "cap c' = cap c"
proof (cases "case freqList c of [] \<Rightarrow> True | e # _ \<Rightarrow> freq_at c e \<noteq> 1")
  case True
  from Set_locked_new_push [OF assms(1) True, of x] assms(2) show ?thesis by auto
next
  case False
  then obtain e es where "freqList c = e # es" "freq_at c e = 1" by (auto split: list.splits)
  from Set_locked_new_reuse [OF assms(1) this, of x] assms(2) show ?thesis by auto
qed

lemma Set_locked_inv:
  assumes "struct_inv c"
  shows "\<exists>c'. Set_locked k x c = Some c' \<and> struct_inv c' \<and> cap c' = cap c \<and>
     fmdom (kv c') = finsert k (fmdom (kv c))"
proof (cases "fmlookup (kv c) k")
  case None
  from Set_locked_new_inv [OF assms None, of x] obtain c' where
    c': "Set_locked k x c = Some c'" "struct_inv c'" "fmdom (kv c') = finsert k (fmdom (kv c))"
    by blast
  with Set_locked_cap [OF None c'(1)] show ?thesis by blast
next
  case (Some i)
  have "struct_inv (set_v i x c)" using assms by (rule set_v_inv)
  moreover have "fmlookup (kv (set_v i x c)) k = Some i" using Some by (simp add: set_v_fields)
  ultimately obtain c' where "increment i (set_v i x c) = Some c'" "struct_inv c'"
    "kv c' = kv (set_v i x c)" "cap c' = cap (set_v i x c)"
    using increment_inv by blast
  moreover have "finsert k (fmdom (kv c)) = fmdom (kv c)" using Some by (auto simp: fmdomI)
  ultimately show ?thesis using Some by (simp add: Set_locked_def set_v_fields)
qed

lemma set_v_cache_inv: "cache_inv c \<Longrightarrow> cache_inv (set_v i x c)"
  by (simp add: cache_inv_def set_v_inv order_ok_def set_v_freqs)

lemma Set_locked_order:
  assumes inv: "cache_inv c" and le: "freq_le c m" and small: "m < 2 ^ 63 - 1" and pos: "0 \<le> m"
    and st: "Set_locked k x c = Some c'"
  shows "order_ok c'" and "freq_le c' (m + 1)"
proof -
  from inv have si: "struct_inv c" and oo: "order_ok c" by (simp_all add: cache_inv_def)
  from si have lo: "list_ok c" by (simp add: struct_inv_def)
  have "order_ok c' \<and> freq_le c' (m + 1)"
  proof (cases "fmlookup (kv c) k")
    case None
    from le have "freq_le c (m + 1)" by (auto simp: freq_le_def)
    with Set_locked_new_order [OF lo None st oo] pos show ?thesis by simp
  next
    case (Some i)
    with st have st': "increment i (set_v i x c) = Some c'" by (simp add: Set_locked_def)
    have "cache_inv (set_v i x c)" using inv by (rule set_v_cache_inv)
    moreover have "freq_le (set_v i x c) m" using le by (simp add: freq_le_def set_v_freqs)
    moreover have "fmlookup (kv (set_v i x c)) k = Some i" using Some by (simp add: set_v_fields)
    ultimately show ?thesis using small st' by (blast intro: increment_order)
  qed
  then show "order_ok c'" and "freq_le c' (m + 1)" by simp_all
qed

lemma Set_inv:
  assumes "struct_inv c"
  shows "\<exists>c'. Set sel k x c = Some c' \<and> struct_inv c' \<and> cap c' = cap c"
proof -
  let ?c0 = "if Set_full c then Evict sel 1 c else c"
  have "struct_inv ?c0" using assms Evict_props(1) [OF assms, of sel 1] by simp
  moreover have "cap ?c0 = cap c" using Evict_props(2) [OF assms] by (simp add: shrunk_def)
  ultimately show ?thesis using Set_locked_inv [of ?c0 k x] by (auto simp: Set_def)
qed

lemma Get_inv:
  assumes "struct_inv c"
  shows "\<exists>r c'. Get k c = Some (r, c') \<and> struct_inv c' \<and> cap c' = cap c \<and> kv c' = kv c"
proof (cases "fmlookup (kv c) k")
  case None
  with assms show ?thesis by (auto simp: Get_def)
next
  case (Some i)
  from increment_inv [OF assms Some] Some show ?thesis by (auto simp: Get_def)
qed

lemma reachable_inv: "reachable c \<Longrightarrow> struct_inv c"
proof (induction rule: reachable.induct)
  case (r_New cp)
  show ?case by (rule New_inv [unfolded cache_inv_def, THEN conjunct1])
next
  case (r_Set c sel k x c')
  with Set_inv [of c sel k x] show ?case by auto
next
  case (r_Get c k r c')
  with Get_inv [of c k] show ?case by auto
next
  case (r_Evict c sel n)
  then show ?case by (simp add: Evict_props(1))
qed

lemma apply_op_inv:
  assumes "struct_inv c"
  shows "\<exists>c'. apply_op a c = Some c' \<and> struct_inv c'"
proof (cases a)
  case (OpSet sel k x)
  with Set_inv [OF assms, of sel k x] show ?thesis by auto
next
  case (OpGet k)
  with Get_inv [OF assms, of k] show ?thesis by auto
next
  case (OpEvict sel n)
  with Evict_props(1) [OF assms] show ?thesis by simp
next
  case OpSize
  with assms show ?thesis by simp
qed

lemma run_inv:
  "struct_inv c \<Longrightarrow> \<exists>c'. run c as = Some c' \<and> struct_inv c'"
proof (induction as arbitrary: c)
  case Nil
  then show ?case by simp
next
  case (Cons a as)
  from apply_op_inv [OF Cons.prems, of a] obtain c1 where "apply_op a c = Some c1" "struct_inv c1"
    by blast
  with Cons.IH [of c1] show ?case by simp
qed

text \<open>One call raises the highest frequency by at most one, and keeps the order below the wrap.\<close>

lemma apply_op_order:
  assumes inv: "cache_inv c" and le: "freq_le c m" and pos: "0 \<le> m" and small: "m < 2 ^ 63 - 1"
    and st: "apply_op a c = Some c'"
  shows "cache_inv c' \<and> freq_le c' (m + 1)"
proof -
  from inv have si: "struct_inv c" and oo: "order_ok c" by (simp_all add: cache_inv_def)
  from apply_op_inv [OF si, of a] st have si': "struct_inv c'" by simp
  have up: "freq_le d (m + 1)" if "freq_le d m" for d :: "'a cache"
    using that by (auto simp: freq_le_def)
  have "order_ok c' \<and> freq_le c' (m + 1)"
  proof (cases a)
    case (OpSet sel k x)
    let ?c0 = "if Set_full c then Evict sel 1 c else c"
    have "struct_inv ?c0" using si Evict_props(1) [OF si, of sel 1] by simp
    moreover have "order_ok ?c0" using oo Evict_order(1) [OF si oo, of sel 1] by simp
    ultimately have "cache_inv ?c0" by (simp add: cache_inv_def)
    moreover have "freq_le ?c0 m" using le Evict_order(2) [OF si oo le] by simp
    moreover from OpSet st have "Set_locked k x ?c0 = Some c'" by (simp add: Set_def)
    ultimately show ?thesis using small pos by (blast intro: Set_locked_order)
  next
    case (OpGet k)
    show ?thesis
    proof (cases "fmlookup (kv c) k")
      case None
      with OpGet st have "c' = c" by (simp add: Get_def)
      with oo le up show ?thesis by simp
    next
      case (Some i)
      with OpGet st have "increment i c = Some c'"
        by (auto simp: Get_def split: option.splits)
      with inv le small Some show ?thesis by (blast intro: increment_order)
    qed
  next
    case (OpEvict sel n)
    with st have "c' = Evict sel n c" by simp
    with Evict_order(1) [OF si oo] Evict_order(2) [OF si oo le] up show ?thesis by simp
  next
    case OpSize
    with st oo le up show ?thesis by simp
  qed
  with si' show ?thesis by (simp add: cache_inv_def)
qed

lemma run_order:
  assumes "cache_inv c" and "freq_le c m" and "0 \<le> m" and "m + int (length as) < 2 ^ 63"
    and "run c as = Some c'"
  shows "cache_inv c' \<and> freq_le c' (m + int (length as))"
  using assms
proof (induction as arbitrary: c m)
  case Nil
  then show ?case by simp
next
  case (Cons a as)
  from Cons.prems(5) obtain c1 where a: "apply_op a c = Some c1" and r: "run c1 as = Some c'"
    by (auto split: option.splits)
  from Cons.prems(4) have "m < 2 ^ 63 - 1" by simp
  with apply_op_order [OF Cons.prems(1,2,3) _ a] have "cache_inv c1" "freq_le c1 (m + 1)"
    by simp_all
  with Cons.IH [of c1 "m + 1"] Cons.prems(3,4) r show ?case by (simp add: add.assoc)
qed

lemma keys_image:
  assumes mo: "members_ok c" and io: "index_ok c"
  shows "fset (fmdom (kv c)) =
     (\<lambda>i. item_k (kvItems c i)) ` (\<Union>e \<in> set (freqList c). fset (members c e))"
proof (intro set_eqI iffI)
  fix k assume "k \<in> fset (fmdom (kv c))"
  then obtain i where "fmlookup (kv c) k = Some i" by (auto simp: fmlookup_dom_iff)
  with io obtain e where "item_k (kvItems c i) = k" "e \<in> set (freqList c)" "i |\<in>| members c e"
    unfolding index_ok_def by blast
  then show "k \<in> (\<lambda>i. item_k (kvItems c i)) ` (\<Union>e \<in> set (freqList c). fset (members c e))"
    by blast
next
  fix k assume "k \<in> (\<lambda>i. item_k (kvItems c i)) ` (\<Union>e \<in> set (freqList c). fset (members c e))"
  then obtain e i where "e \<in> set (freqList c)" "i |\<in>| members c e" "k = item_k (kvItems c i)"
    by blast
  with mo have "fmlookup (kv c) k = Some i" unfolding members_ok_def by blast
  then show "k \<in> fset (fmdom (kv c))" by (simp add: fmdomI)
qed

lemma keys_inj:
  assumes mo: "members_ok c"
  shows "inj_on (\<lambda>i. item_k (kvItems c i)) (\<Union>e \<in> set (freqList c). fset (members c e))"
proof (rule inj_onI)
  fix i j
  assume i: "i \<in> (\<Union>e \<in> set (freqList c). fset (members c e))"
    and j: "j \<in> (\<Union>e \<in> set (freqList c). fset (members c e))"
    and eq: "item_k (kvItems c i) = item_k (kvItems c j)"
  from i obtain e where "e \<in> set (freqList c)" "i |\<in>| members c e" by auto
  with mo have li: "fmlookup (kv c) (item_k (kvItems c i)) = Some i"
    by (simp add: members_ok_def)
  from j obtain e' where "e' \<in> set (freqList c)" "j |\<in>| members c e'" by auto
  with mo have "fmlookup (kv c) (item_k (kvItems c j)) = Some j"
    by (simp add: members_ok_def)
  with li eq show "i = j" by simp
qed

lemma buckets_disjoint:
  assumes mo: "members_ok c" and e: "e \<in> set (freqList c)" "e' \<in> set (freqList c)" "e \<noteq> e'"
  shows "fset (members c e) \<inter> fset (members c e') = {}"
proof (rule ccontr)
  assume "fset (members c e) \<inter> fset (members c e') \<noteq> {}"
  then obtain i where i: "i |\<in>| members c e" "i |\<in>| members c e'" by blast
  from mo e(1) i(1) have "item_parent (kvItems c i) = Some e" unfolding members_ok_def by blast
  moreover from mo e(2) i(2) have "item_parent (kvItems c i) = Some e'"
    unfolding members_ok_def by blast
  ultimately show False using e(3) by simp
qed

lemma sum_list_int_fcard:
  "int (\<Sum>e\<leftarrow>xs. f e) = (\<Sum>e\<leftarrow>xs. int (f e))"
  by (induction xs) simp_all

lemma Size_sum:
  assumes inv: "struct_inv c"
  shows "Size c = (\<Sum>e\<leftarrow>freqList c. int (fcard (members c e)))"
proof -
  from inv have d: "distinct (freqList c)" and mo: "members_ok c" and io: "index_ok c"
    by (simp_all add: struct_inv_def list_ok_def)
  let ?key = "\<lambda>i. item_k (kvItems c i)"
  let ?A = "\<Union>e \<in> set (freqList c). fset (members c e)"
  have "card (fset (fmdom (kv c))) = card (?key ` ?A)"
    using keys_image [OF mo io] by simp
  also have "\<dots> = card ?A"
    using keys_inj [OF mo] by (rule card_image)
  also have "\<dots> = (\<Sum>e \<in> set (freqList c). card (fset (members c e)))"
  proof (rule card_UN_disjoint)
    show "finite (set (freqList c))" by simp
    show "\<forall>e \<in> set (freqList c). finite (fset (members c e))" by simp
    show "\<forall>e \<in> set (freqList c). \<forall>e' \<in> set (freqList c). e \<noteq> e' \<longrightarrow>
        fset (members c e) \<inter> fset (members c e') = {}"
      using buckets_disjoint [OF mo] by blast
  qed
  also have "\<dots> = (\<Sum>e\<leftarrow>freqList c. card (fset (members c e)))"
    using d by (rule sum_list_distinct_conv_sum_set [symmetric])
  finally have "fcard (fmdom (kv c)) = (\<Sum>e\<leftarrow>freqList c. fcard (members c e))"
    by (simp only: fcard.rep_eq)
  then show ?thesis
    by (simp only: Size_def sum_list_int_fcard)
qed

subsection \<open>Evaluation of the trace\<close>

lemmas ev0 = Set_def Set_full_def Size_def Set_locked_def Front_def Len_def PushFront_def
  new_kvItem_def add_item_def Let_def fcard_fempty Get_def increment_def Next_def InsertAfter_def
  set_parent_def delete_item_def Remove_def set_v_def Evict_def evict_item_def
  finsert_fminus_if fcard_finsert_if evict_loop.simps range_items.simps fun_eq_iff

lemmas ev = ev0 wrap64_def

lemma pick_single: "pick sel {|x|} = x"
  using pick_in [of "{|x|}" sel] by simp

lemma Set_a: "Set sel ''a'' (Some 1) (New 2) = Some s_a"
  by (simp add: ev New_def s_a_def)

lemma Set_b: "Set sel ''b'' (Some 2) s_a = Some s_ab"
  by (simp add: ev s_a_def s_ab_def)

lemma Get_a: "Get ''a'' s_ab = Some ((Some 1, True), s_ab_a)"
  by (auto simp: ev s_ab_def s_ab_a_def)

lemma Set_c: "Set sel ''c'' (Some 3) s_ab_a = Some s_abc"
  by (auto simp: ev s_ab_a_def s_abc_def pick_single)

lemma reachable_s_ab: "reachable s_ab"
  using r_Set [OF r_Set [OF r_New Set_a] Set_b] .

lemma reachable_s_ab_a: "reachable s_ab_a"
  using r_Get [OF reachable_s_ab Get_a] .


lemma run_trace:
  "run (New 2) [OpSet sel1 ''a'' (Some 1), OpSet sel2 ''b'' (Some 2), OpGet ''a'',
     OpSet sel3 ''c'' (Some 3)] = Some s_abc"
  by (simp only: run.simps apply_op.simps Set_a Set_b Get_a Set_c option.case option.map snd_conv)

lemma fsubset_one_less:
  assumes "A |\<subseteq>| B" and "fcard B = Suc (fcard A)" and "k |\<in>| B" and "k |\<notin>| A"
  shows "A = B |-| {|k|}"
proof -
  from assms(1,4) have sub: "A |\<subseteq>| B |-| {|k|}" by auto
  from assms(3) have "Suc (fcard (B |-| {|k|})) = fcard B" by (rule fcard_Suc_fminus1)
  with assms(2) have "fcard (B |-| {|k|}) \<le> fcard A" by simp
  with sub show ?thesis by (rule fcard_seteq)
qed

lemma shrunk_lookup:
  assumes "shrunk c c'" and "k |\<in>| fmdom (kv c')"
  shows "fmlookup (kv c') k = fmlookup (kv c) k"
proof -
  from assms(2) obtain i where i: "fmlookup (kv c') k = Some i" by (auto simp: fmlookup_dom_iff)
  with assms(1) show ?thesis by (simp add: shrunk_def)
qed

lemma key_freq_dom: "key_freq c k = Some f \<Longrightarrow> k |\<in>| fmdom (kv c)"
  by (auto simp: key_freq_def fmlookup_dom_iff split: option.splits)

lemma Evict_one_keeps_higher:
  assumes inv: "struct_inv c" and oo: "order_ok c"
    and k: "key_freq c k = Some f" and k': "key_freq c k' = Some f'" and lt: "f' < f"
  shows "k |\<in>| fmdom (kv (Evict sel 1 c))"
proof (rule ccontr)
  let ?c' = "Evict sel 1 c"
  assume out: "k |\<notin>| fmdom (kv ?c')"
  from k k' have d: "k |\<in>| fmdom (kv c)" "k' |\<in>| fmdom (kv c)" by (auto dest: key_freq_dom)
  from lt k k' have ne: "k \<noteq> k'" by auto
  have sub: "fmdom (kv ?c') |\<subseteq>| fmdom (kv c)"
    using Evict_props(2) [OF inv, of sel 1] by (auto dest: shrunk_dom)
  from d(1) have "fmdom (kv c) \<noteq> {||}" by auto
  then have "fcard (fmdom (kv c)) \<noteq> 0" by simp
  then have "0 < fcard (fmdom (kv c))" by (rule neq0_conv [THEN iffD1])
  moreover have "Size ?c' = max 0 (Size c - 1)"
    using Evict_props(3) [OF inv, of sel 1] by simp
  ultimately have "fcard (fmdom (kv c)) = Suc (fcard (fmdom (kv ?c')))"
    by (simp add: Size_def)
  with sub have "fmdom (kv ?c') = fmdom (kv c) |-| {|k|}"
    using d(1) out by (rule fsubset_one_less)
  with d(2) ne have "k' |\<in>| fmdom (kv ?c')" by simp
  with Evict_props(5) [OF inv oo, of sel 1] d(1) out
  obtain g g' where "key_freq c k = Some g" "key_freq c k' = Some g'" "g \<le> g'"
    unfolding lowest_first_def by blast
  with k k' lt show False by simp
qed

subsection \<open>The long run of Get\<close>

lemma wrap64_succ: "wrap64 (wrap64 x + 1) = wrap64 (x + 1)"
proof -
  define N :: int where "N = 2 ^ 64"
  define M :: int where "M = 2 ^ 63"
  have "wrap64 x + 1 + M = (x + M) mod N + 1"
    by (simp only: wrap64_def N_def M_def)
  then have "(wrap64 x + 1 + M) mod N = ((x + M) mod N + 1) mod N" by (simp only:)
  also have "\<dots> = (x + M + 1) mod N" by (rule mod_add_left_eq)
  also have "x + M + 1 = x + 1 + M" by simp
  finally show ?thesis by (simp only: wrap64_def N_def M_def)
qed

lemma s_gets_1: "s_gets 1 = s_ab_a"
  by (auto simp: s_gets_def s_ab_a_def fun_eq_iff wrap64_def)

lemma Get_s_gets:
  assumes "1 \<le> j"
  shows "Get ''a'' (s_gets j) = Some ((Some 1, True), s_gets (Suc j))"
proof -
  from assms have j: "j \<noteq> 0" "0 \<noteq> j" by simp_all
  have w: "wrap64 (wrap64 (int j + 1) + 1) = wrap64 (int (Suc j) + 1)"
    unfolding wrap64_succ by (simp add: add.commute)
  show ?thesis
    using j by (auto simp: ev0 s_gets_def w simp del: of_nat_Suc)
qed

lemma run_gets:
  "1 \<le> j \<Longrightarrow> run (s_gets j) (replicate n (OpGet ''a'')) = Some (s_gets (j + n))"
proof (induction n arbitrary: j)
  case 0
  then show ?case by simp
next
  case (Suc n)
  from Suc.IH [of "Suc j"] Suc.prems show ?case by (simp add: Get_s_gets)
qed

lemma run_to_gets:
  "run (New 2) (OpSet sel1 ''a'' (Some 1) # OpSet sel2 ''b'' (Some 2) #
      replicate (Suc n) (OpGet ''a'')) = Some (s_gets (Suc n))"
proof -
  have "run s_ab (replicate (Suc n) (OpGet ''a'')) = run s_ab_a (replicate n (OpGet ''a''))"
    by (simp add: Get_a)
  also have "\<dots> = Some (s_gets (1 + n))"
    using run_gets [of 1 n] by (simp only: s_gets_1 le_refl)
  finally show ?thesis
    by (simp only: run.simps apply_op.simps Set_a Set_b option.case plus_1_eq_Suc)
qed

lemma s_gets_freqs:
  "1 \<le> j \<Longrightarrow> map (freq_at (s_gets j)) (freqList (s_gets j)) = [1, wrap64 (int j + 1)]"
  by (simp add: s_gets_def freq_at_def)

lemma wrap64_max: "wrap64 (9223372036854775807 + 1) = - 9223372036854775808"
  by (simp add: wrap64_def)

lemma s_gets_key_freq:
  "1 \<le> j \<Longrightarrow> key_freq (s_gets j) ''a'' = Some (wrap64 (int j + 1))"
  "1 \<le> j \<Longrightarrow> key_freq (s_gets j) ''b'' = Some 1"
  by (simp_all add: s_gets_def key_freq_def freq_at_def)

lemma Evict_s_gets:
  assumes "1 \<le> j"
  shows "fmlookup (kv (Evict sel 1 (s_gets j))) ''b'' = None"
    and "fmlookup (kv (Evict sel 1 (s_gets j))) ''a'' = Some 0"
  by (simp_all add: ev0 s_gets_def pick_single)

lemma big: "Suc 9223372036854775806 = 9223372036854775807"
  by simp

lemma run_to_s_ab_a:
  "run (New 2) [OpSet sel1 ''a'' (Some 1), OpSet sel2 ''b'' (Some 2), OpGet ''a''] = Some s_ab_a"
  by (simp only: run.simps apply_op.simps Set_a Set_b Get_a option.case option.map snd_conv)











lemma Set_not_full: "\<not> Set_full c \<Longrightarrow> Set sel k x c = Set_locked k x c"
  by (simp add: Set_def)

lemma Size_finsert:
  "k |\<notin>| fmdom (kv c) \<Longrightarrow> fmdom (kv c') = finsert k (fmdom (kv c)) \<Longrightarrow> Size c' = Size c + 1"
  by (simp add: Size_def fcard_finsert_if)

lemma run_sets:
  assumes "struct_inv c"
    and "cap c \<le> 0 \<or> (distinct (keys_of kvs) \<and> set (keys_of kvs) \<inter> fset (fmdom (kv c)) = {} \<and>
           Size c + int (length kvs) \<le> cap c)"
  shows "\<exists>c'. run c (sets kvs) = Some c' \<and> struct_inv c' \<and> cap c' = cap c \<and>
     fmdom (kv c') = fmdom (kv c) |\<union>| fset_of_list (keys_of kvs)"
  using assms
proof (induction kvs arbitrary: c)
  case Nil
  then show ?case by (simp add: sets_def keys_of_def)
next
  case (Cons a kvs)
  obtain sel k x where a: "a = (sel, k, x)" by (cases a)
  have nf: "\<not> Set_full c"
    using Cons.prems(2) by (auto simp: Set_full_def)
  from Set_locked_inv [OF Cons.prems(1), of k x] obtain c1 where
    c1: "Set_locked k x c = Some c1" "struct_inv c1" "cap c1 = cap c"
    "fmdom (kv c1) = finsert k (fmdom (kv c))"
    by blast
  have hyp: "cap c1 \<le> 0 \<or> (distinct (keys_of kvs) \<and>
      set (keys_of kvs) \<inter> fset (fmdom (kv c1)) = {} \<and> Size c1 + int (length kvs) \<le> cap c1)"
  proof (cases "cap c \<le> 0")
    case True
    with c1(3) show ?thesis by simp
  next
    case False
    with Cons.prems(2) a have d: "distinct (keys_of kvs)" "k \<notin> set (keys_of kvs)"
      "set (keys_of kvs) \<inter> fset (fmdom (kv c)) = {}" "k |\<notin>| fmdom (kv c)"
      "Size c + 1 + int (length kvs) \<le> cap c"
      by (auto simp: keys_of_def)
    from d(4) c1(4) have "Size c1 = Size c + 1" by (rule Size_finsert)
    with d c1(3,4) show ?thesis by auto
  qed
  from Cons.IH [OF c1(2) hyp] obtain c' where c': "run c1 (sets kvs) = Some c'" "struct_inv c'"
    "cap c' = cap c1" "fmdom (kv c') = fmdom (kv c1) |\<union>| fset_of_list (keys_of kvs)"
    by blast
  have "run c (sets (a # kvs)) = Some c'"
    using a c1(1) c'(1) nf by (simp add: sets_def Set_not_full)
  moreover have "fmdom (kv c') = fmdom (kv c) |\<union>| fset_of_list (keys_of (a # kvs))"
    using c'(4) c1(4) a by (auto simp: keys_of_def)
  ultimately show ?case using c'(2,3) c1(3) by simp
qed

lemma fsubset_one_less_ex:
  assumes "A |\<subseteq>| B" and "fcard B = Suc (fcard A)"
  shows "\<exists>k. k |\<in>| B \<and> A = B |-| {|k|}"
proof -
  have "A \<noteq> B"
  proof
    assume "A = B"
    with assms(2) show False by simp
  qed
  with assms(1) have "\<not> B |\<subseteq>| A" by (metis order.antisym)
  then obtain k where k: "k |\<in>| B" "k |\<notin>| A" by (meson fsubsetI)
  from assms k have "A = B |-| {|k|}" by (rule fsubset_one_less)
  with k(1) show ?thesis by blast
qed

lemma pick_two: "pick sel {|x, y|} = x \<or> pick sel {|x, y|} = y"
  using pick_in [of "{|x, y|}" sel] by auto

lemma Set_alone:
  "interleave (if Set_full c then [0, 0, 0] else [0, 0]) ([(AtTest, sel, k, x)], c) =
     map_option (\<lambda>c'. ([(Returned, sel, k, x)], c')) (Set sel k x c)"
  by (simp add: Set_def split: option.splits)

section \<open>Get on a key that is not in the cache\<close>

text \<open>
  C8: for every cache state and every key \<open>k\<close> that is not in the key index, \<^verbatim>\<open>Get(k)\<close> returns
  \<^verbatim>\<open>(nil, false)\<close> and leaves the whole state as it was: the key index, the list, every bucket
  and every entry, hence \<^verbatim>\<open>Size()\<close> too.
\<close>

theorem Get_absent:
  "fmlookup (kv c) k = None \<Longrightarrow> Get k c = Some ((None, False), c)"
  by (simp add: Get_def)

theorem Get_absent_witness:
  "Get ''z'' (New 2 :: nat cache) = Some ((None, False), New 2)"
  using Get_absent [of "New 2 :: nat cache" "''z''"] by (simp add: New_def)

section \<open>The invariant of the bucket list along every run\<close>

text \<open>
  C3, as amended: after every sequence of \<^verbatim>\<open>Set\<close>, \<^verbatim>\<open>Get\<close>, \<^verbatim>\<open>Evict\<close> (and \<^verbatim>\<open>Size\<close>) calls on a
  cache made by \<^verbatim>\<open>New\<close>, whatever the capacity and whatever order the map iterations take,
  no call has panicked, no bucket is empty, and \<^verbatim>\<open>Size()\<close>, which is the size of the key
  index, is the sum of the numbers of members of the buckets; and when the sequence has
  fewer than \<open>2^63\<close> calls, the frequencies of the buckets are strictly increasing from the
  front of the list to its back, so that no two buckets have the same frequency.
\<close>

theorem run_keeps_invariant:
  "\<exists>c. run (New cp) ops = Some c \<and>
     (\<forall>e \<in> set (freqList c). members c e \<noteq> {||}) \<and>
     Size c = (\<Sum>e\<leftarrow>freqList c. int (fcard (members c e))) \<and>
     Size c = int (fcard (fmdom (kv c))) \<and>
     (int (length ops) < 2 ^ 63 \<longrightarrow>
        sorted_wrt (<) (map (freq_at c) (freqList c)) \<and>
        distinct (map (freq_at c) (freqList c)))"
proof -
  have s0: "struct_inv (New cp)" by (rule New_inv [unfolded cache_inv_def, THEN conjunct1])
  from run_inv [OF s0, of ops] obtain c where c: "run (New cp) ops = Some c" "struct_inv c"
    by blast
  from c(2) have ne: "\<forall>e \<in> set (freqList c). members c e \<noteq> {||}"
    by (simp add: struct_inv_def no_empty_def)
  have "sorted_wrt (<) (map (freq_at c) (freqList c)) \<and> distinct (map (freq_at c) (freqList c))"
    if "int (length ops) < 2 ^ 63"
  proof -
    from run_order [OF New_inv New_freq_le _ _ c(1), of 0] that have "cache_inv c" by simp
    then have s: "sorted_wrt (<) (map (freq_at c) (freqList c))"
      by (simp add: cache_inv_def order_ok_def)
    then have "distinct (map (freq_at c) (freqList c))" by (simp add: strict_sorted_iff)
    with s show ?thesis by simp
  qed
  with c ne Size_sum [OF c(2)] show ?thesis by (auto simp: Size_def)
qed

theorem run_keeps_invariant_witness:
  "run (New 2) [OpSet (\<lambda>_. 0) ''a'' (Some 1), OpSet (\<lambda>_. 0) ''b'' (Some 2), OpGet ''a'',
      OpSet (\<lambda>_. 0) ''c'' (Some 3)] = Some s_abc \<and>
   map (freq_at s_abc) (freqList s_abc) = [1, 2] \<and>
   sorted_wrt (<) (map (freq_at s_abc) (freqList s_abc)) \<and>
   Size s_abc = (\<Sum>e\<leftarrow>freqList s_abc. int (fcard (members s_abc e))) \<and> Size s_abc = 2"
proof -
  let ?ops = "[OpSet (\<lambda>_. 0) ''a'' (Some (1::nat)), OpSet (\<lambda>_. 0) ''b'' (Some 2), OpGet ''a'',
      OpSet (\<lambda>_. 0) ''c'' (Some 3)]"
  have r: "run (New 2) ?ops = Some s_abc" by (rule run_trace)
  have f: "map (freq_at s_abc) (freqList s_abc) = [1, 2]"
    by (simp add: freq_at_def s_abc_def)
  have z: "Size s_abc = 2"
    by (simp add: s_abc_def Size_def fcard_finsert_if)
  have len: "int (length ?ops) < 2 ^ 63" by simp
  from run_keeps_invariant [of 2 ?ops] len obtain c where c: "run (New 2) ?ops = Some c"
    "sorted_wrt (<) (map (freq_at c) (freqList c))"
    "Size c = (\<Sum>e\<leftarrow>freqList c. int (fcard (members c e)))"
    by blast
  from c(1) r have "c = s_abc" by (simp only: option.inject)
  with c r f z show ?thesis by (simp only: simp_thms)
qed

text \<open>
  C3 as the specification states it, for every sequence of calls, fails where the
  frequency wraps around: \<^verbatim>\<open>Set(a,1)\<close>, \<^verbatim>\<open>Set(b,2)\<close> and \<open>2^63 - 1\<close> calls of \<^verbatim>\<open>Get(a)\<close> leave the
  bucket of \<^verbatim>\<open>b\<close>, of frequency 1, in front of the bucket of \<^verbatim>\<open>a\<close>, whose frequency is the
  least \<^verbatim>\<open>int\<close>: the frequencies are not increasing.
\<close>

theorem run_order_counterexample:
  "run (New 2) (OpSet (\<lambda>_. 0) ''a'' (Some 1) # OpSet (\<lambda>_. 0) ''b'' (Some 2) #
      replicate 9223372036854775807 (OpGet ''a'')) = Some (s_gets 9223372036854775807) \<and>
   map (freq_at (s_gets 9223372036854775807)) (freqList (s_gets 9223372036854775807)) =
     [1, - 9223372036854775808] \<and>
   \<not> sorted_wrt (<) (map (freq_at (s_gets 9223372036854775807))
        (freqList (s_gets 9223372036854775807)))"
proof -
  have r: "run (New 2) (OpSet (\<lambda>_. 0) ''a'' (Some 1) # OpSet (\<lambda>_. 0) ''b'' (Some 2) #
      replicate 9223372036854775807 (OpGet ''a'')) = Some (s_gets 9223372036854775807)"
    using run_to_gets [of "\<lambda>_. 0" "\<lambda>_. 0" 9223372036854775806] by (simp only: big)
  have f: "map (freq_at (s_gets 9223372036854775807)) (freqList (s_gets 9223372036854775807)) =
     [1, - 9223372036854775808]"
    using s_gets_freqs [of 9223372036854775807] wrap64_max by simp
  from r f show ?thesis by simp
qed

section \<open>The trace of the specification\<close>

text \<open>
  C7: with capacity 2, after \<^verbatim>\<open>Set(a,1)\<close> and \<^verbatim>\<open>Set(b,2)\<close> both entries are at frequency 1 and
  \<^verbatim>\<open>Size()\<close> is 2; \<^verbatim>\<open>Get(a)\<close> returns \<^verbatim>\<open>(1, true)\<close> and moves \<^verbatim>\<open>a\<close> to frequency 2, \<^verbatim>\<open>b\<close> staying
  alone at frequency 1; \<^verbatim>\<open>Set(c,3)\<close> then evicts \<^verbatim>\<open>b\<close>, the keys present are \<^verbatim>\<open>a\<close> and \<^verbatim>\<open>c\<close> and
  \<^verbatim>\<open>Size()\<close> is 2. This holds for every order of map iteration.
\<close>

theorem trace_capacity_two:
  "\<exists>c1 c2 c3 c4.
     Set sel1 ''a'' (Some 1) (New 2) = Some c1 \<and> Set sel2 ''b'' (Some 2) c1 = Some c2 \<and>
     key_freq c2 ''a'' = Some 1 \<and> key_freq c2 ''b'' = Some 1 \<and> Size c2 = 2 \<and>
     Get ''a'' c2 = Some ((Some (1::nat), True), c3) \<and>
     key_freq c3 ''a'' = Some 2 \<and> key_freq c3 ''b'' = Some 1 \<and>
     Set sel3 ''c'' (Some 3) c3 = Some c4 \<and>
     fmlookup (kv c4) ''b'' = None \<and> fmdom (kv c4) = {|''a'', ''c''|} \<and> Size c4 = 2"
proof -
  have "key_freq s_ab ''a'' = Some 1" "key_freq s_ab ''b'' = Some 1" "Size s_ab = 2"
    by (simp_all add: key_freq_def freq_at_def Size_def s_ab_def fcard_finsert_if)
  moreover have "key_freq s_ab_a ''a'' = Some 2" "key_freq s_ab_a ''b'' = Some 1"
    by (simp_all add: key_freq_def freq_at_def s_ab_a_def)
  moreover have "fmlookup (kv s_abc) ''b'' = None" "fmdom (kv s_abc) = {|''a'', ''c''|}"
    "Size s_abc = 2"
    by (auto simp: s_abc_def Size_def fcard_finsert_if)
  ultimately show ?thesis
    using Set_a [of sel1] Set_b [of sel2] Get_a Set_c [of sel3] by blast
qed

section \<open>Evict with a count that is not positive, or larger than the size\<close>



section \<open>The number of entries that Evict removes\<close>

text \<open>
  C10: in every state that the cache reaches and for every \<open>n > 0\<close>, \<^verbatim>\<open>Evict(n)\<close> removes
  exactly \<open>min n Size\<close> entries and adds none: the size afterwards is \<open>max 0 (Size - n)\<close>.
\<close>

theorem Evict_removes_min:
  assumes "reachable c" and "0 < n"
  shows "Size (Evict sel n c) = max 0 (Size c - n) \<and>
     Size c - Size (Evict sel n c) = min n (Size c) \<and>
     fmdom (kv (Evict sel n c)) |\<subseteq>| fmdom (kv c)"
proof -
  have inv: "struct_inv c" using assms(1) by (rule reachable_inv)
  have sz: "Size (Evict sel n c) = max 0 (Size c - n)"
    using Evict_props(3) [OF inv, of sel n] assms(2) by simp
  have "fmdom (kv (Evict sel n c)) |\<subseteq>| fmdom (kv c)"
    using Evict_props(2) [OF inv, of sel n] by (auto dest: shrunk_dom)
  with sz show ?thesis by auto
qed

theorem Evict_removes_min_witness:
  "Size s_ab_a = 2 \<and> Size (Evict (\<lambda>_. 0) 1 s_ab_a) = 1 \<and> Size (Evict (\<lambda>_. 0) 7 s_ab_a) = 0"
proof -
  have "Size s_ab_a = 2" by (simp add: Size_def s_ab_a_def fcard_finsert_if)
  then show ?thesis
    using Evict_removes_min [OF reachable_s_ab_a, of 1 "\<lambda>_. 0"]
      Evict_removes_min [OF reachable_s_ab_a, of 7 "\<lambda>_. 0"]
    by simp
qed

section \<open>Evict takes the entries of lowest frequency first\<close>

text \<open>
  C4, as amended: in every state that the cache reaches by fewer than \<open>2^63\<close> calls and for
  every \<open>n > 0\<close>, \<^verbatim>\<open>Evict(n)\<close> removes \<open>min n Size\<close> entries and adds none, taking them from the
  bucket of lowest frequency and going on to the next bucket only when that one is
  exhausted: every key it removes had a frequency not above that of any key it leaves, and
  the keys it leaves keep their frequency. Hence when one eviction is requested, a key
  whose frequency is above that of some other key in the cache is not removed (its index
  entry and its frequency are as before), in particular the key that was accessed more often
  than every other one.
\<close>

theorem Evict_lowest_frequency_first:
  assumes "run (New cp) ops = Some c" and "int (length ops) < 2 ^ 63" and "0 < n"
  shows "Size (Evict sel n c) = max 0 (Size c - n) \<and>
     fmdom (kv (Evict sel n c)) |\<subseteq>| fmdom (kv c) \<and>
     (\<forall>k k'. k |\<in>| fmdom (kv c) \<and> k |\<notin>| fmdom (kv (Evict sel n c)) \<and>
            k' |\<in>| fmdom (kv (Evict sel n c)) \<longrightarrow>
          (\<exists>f f'. key_freq c k = Some f \<and> key_freq c k' = Some f' \<and> f \<le> f' \<and>
             key_freq (Evict sel n c) k' = Some f')) \<and>
     (\<forall>k k' f f'. key_freq c k = Some f \<and> key_freq c k' = Some f' \<and> f' < f \<longrightarrow>
          fmlookup (kv (Evict sel 1 c)) k = fmlookup (kv c) k \<and>
          key_freq (Evict sel 1 c) k = Some f)"
proof (intro conjI allI impI)
  from run_order [OF New_inv New_freq_le _ _ assms(1), of 0] assms(2)
  have "cache_inv c" by simp
  then have inv: "struct_inv c" and oo: "order_ok c" by (simp_all add: cache_inv_def)
  note sh = Evict_props(2) [OF inv]
  show "Size (Evict sel n c) = max 0 (Size c - n)"
    using Evict_props(3) [OF inv, of sel n] assms(3) by simp
  show "fmdom (kv (Evict sel n c)) |\<subseteq>| fmdom (kv c)"
    using sh [of sel n] by (auto dest: shrunk_dom)
  {
    fix k k'
    assume a: "k |\<in>| fmdom (kv c) \<and> k |\<notin>| fmdom (kv (Evict sel n c)) \<and>
        k' |\<in>| fmdom (kv (Evict sel n c))"
    with Evict_props(5) [OF inv oo, of sel n] obtain f f' where
      f: "key_freq c k = Some f" "key_freq c k' = Some f'" "f \<le> f'"
      unfolding lowest_first_def by blast
    moreover have "key_freq (Evict sel n c) k' = key_freq c k'"
      using sh a by (blast intro: shrunk_key_freq)
    ultimately show "\<exists>f f'. key_freq c k = Some f \<and> key_freq c k' = Some f' \<and> f \<le> f' \<and>
        key_freq (Evict sel n c) k' = Some f'"
      by auto
  }
  {
    fix k k' :: string and f f' :: int
    assume a: "key_freq c k = Some f \<and> key_freq c k' = Some f' \<and> f' < f"
    then have in': "k |\<in>| fmdom (kv (Evict sel 1 c))"
      using Evict_one_keeps_higher [OF inv oo] by blast
    show "fmlookup (kv (Evict sel 1 c)) k = fmlookup (kv c) k"
      using sh in' by (rule shrunk_lookup)
    show "key_freq (Evict sel 1 c) k = Some f"
      using shrunk_key_freq [OF sh in'] a by simp
  }
qed

theorem Evict_lowest_frequency_first_witness:
  "run (New 2) [OpSet (\<lambda>_. 0) ''a'' (Some 1), OpSet (\<lambda>_. 0) ''b'' (Some 2), OpGet ''a'']
     = Some s_ab_a \<and>
   key_freq s_ab_a ''a'' = Some 2 \<and> key_freq s_ab_a ''b'' = Some 1 \<and> Size s_ab_a = 2 \<and>
   Size (Evict (\<lambda>_. 0) 1 s_ab_a) = 1 \<and>
   fmlookup (kv (Evict (\<lambda>_. 0) 1 s_ab_a)) ''b'' = None \<and>
   fmlookup (kv (Evict (\<lambda>_. 0) 1 s_ab_a)) ''a'' = Some 0 \<and>
   key_freq (Evict (\<lambda>_. 0) 1 s_ab_a) ''a'' = Some 2"
proof -
  let ?ops = "[OpSet (\<lambda>_. 0) ''a'' (Some (1::nat)), OpSet (\<lambda>_. 0) ''b'' (Some 2), OpGet ''a'']"
  have r: "run (New 2) ?ops = Some s_ab_a" by (rule run_to_s_ab_a)
  have len: "int (length ?ops) < 2 ^ 63" by simp
  have k: "key_freq s_ab_a ''a'' = Some 2" "key_freq s_ab_a ''b'' = Some 1"
    "fmlookup (kv s_ab_a) ''a'' = Some 0" "Size s_ab_a = 2"
    by (simp_all add: key_freq_def freq_at_def s_ab_a_def Size_def fcard_finsert_if)
  have b: "fmlookup (kv (Evict (\<lambda>_. 0) 1 s_ab_a)) ''b'' = None"
    using Evict_s_gets(1) [of 1 "\<lambda>_. 0"] by (simp only: s_gets_1 le_refl)
  note inst = Evict_lowest_frequency_first [OF r len, of 1 "\<lambda>_. 0"]
  from inst k(4) have z: "Size (Evict (\<lambda>_. 0) 1 s_ab_a) = 1" by simp
  note keep = inst [THEN conjunct2, THEN conjunct2, THEN conjunct2, rule_format,
      of "''a''" 2 "''b''" 1]
  from k have "fmlookup (kv (Evict (\<lambda>_. 0) 1 s_ab_a)) ''a'' = fmlookup (kv s_ab_a) ''a'' \<and>
      key_freq (Evict (\<lambda>_. 0) 1 s_ab_a) ''a'' = Some 2"
    by (intro keep) simp_all
  with r k b z show ?thesis by simp
qed

text \<open>
  C4 as the specification states it, for every state, fails after a frequency has wrapped
  around: in the state that \<^verbatim>\<open>Set(a,1)\<close>, \<^verbatim>\<open>Set(b,2)\<close> and \<open>2^63 - 1\<close> calls of \<^verbatim>\<open>Get(a)\<close> reach, the
  bucket of lowest frequency is that of \<^verbatim>\<open>a\<close>, and \<^verbatim>\<open>Evict(1)\<close> removes \<^verbatim>\<open>b\<close>, of frequency 1.
\<close>

theorem Evict_lowest_counterexample:
  "run (New 2) (OpSet (\<lambda>_. 0) ''a'' (Some 1) # OpSet (\<lambda>_. 0) ''b'' (Some 2) #
      replicate 9223372036854775807 (OpGet ''a'')) = Some (s_gets 9223372036854775807) \<and>
   key_freq (s_gets 9223372036854775807) ''a'' = Some (- 9223372036854775808) \<and>
   key_freq (s_gets 9223372036854775807) ''b'' = Some 1 \<and>
   fmlookup (kv (Evict (\<lambda>_. 0) 1 (s_gets 9223372036854775807))) ''b'' = None \<and>
   fmlookup (kv (Evict (\<lambda>_. 0) 1 (s_gets 9223372036854775807))) ''a'' = Some 0"
proof -
  have r: "run (New 2) (OpSet (\<lambda>_. 0) ''a'' (Some 1) # OpSet (\<lambda>_. 0) ''b'' (Some 2) #
      replicate 9223372036854775807 (OpGet ''a'')) = Some (s_gets 9223372036854775807)"
    using run_to_gets [of "\<lambda>_. 0" "\<lambda>_. 0" 9223372036854775806] by (simp only: big)
  have j: "1 \<le> (9223372036854775807 :: nat)" by simp
  have "key_freq (s_gets 9223372036854775807) ''a'' = Some (- 9223372036854775808)"
    using s_gets_key_freq(1) [OF j] wrap64_max by simp
  with r s_gets_key_freq(2) [OF j] Evict_s_gets [OF j, of "\<lambda>_. 0"] show ?thesis
    by (simp only: simp_thms)
qed

section \<open>increment against the specification\<close>




section \<open>The capacity\<close>

text \<open>
  C6: with a capacity that is 0 or negative \<^verbatim>\<open>Set\<close> does not call \<^verbatim>\<open>Evict\<close>, and after every
  sequence of \<^verbatim>\<open>Set\<close> calls on a new cache \<^verbatim>\<open>Size()\<close> is the number of distinct keys of the
  sequence; the same holds with a capacity \<open>C > 0\<close> for at most \<open>C\<close> calls with distinct keys.
  In a state that the cache reaches with capacity \<open>C > 0\<close> and \<^verbatim>\<open>Size() == C\<close>, \<^verbatim>\<open>Set\<close> of a key
  that is not in the cache calls \<^verbatim>\<open>Evict(1)\<close>, which removes exactly one key, then stores the
  new key, and leaves \<^verbatim>\<open>Size() == C\<close>.
\<close>

theorem capacity_policy:
  fixes c :: "'v cache" and kvs :: "(chooser \<times> string \<times> 'v iface) list"
  shows "(cap c \<le> 0 \<longrightarrow> Set sel k x c = Set_locked k x c) \<and>
   (cp \<le> 0 \<or> distinct (keys_of kvs) \<and> int (length kvs) \<le> cp \<longrightarrow>
      (\<exists>c'. run (New cp) (sets kvs) = Some c' \<and>
         fset (fmdom (kv c')) = set (keys_of kvs) \<and> Size c' = int (card (set (keys_of kvs))))) \<and>
   (reachable c \<and> 0 < cap c \<and> Size c = cap c \<and> fmlookup (kv c) k = None \<longrightarrow>
      (\<exists>c' k0. Set sel k x c = Some c' \<and> Set_locked k x (Evict sel 1 c) = Some c' \<and>
         k0 |\<in>| fmdom (kv c) \<and> fmdom (kv (Evict sel 1 c)) = fmdom (kv c) |-| {|k0|} \<and>
         fmdom (kv c') = finsert k (fmdom (kv c) |-| {|k0|}) \<and> Size c' = cap c))"
proof (intro conjI impI)
  show "Set sel k x c = Set_locked k x c" if "cap c \<le> 0"
    using that by (simp add: Set_def Set_full_def)
next
  assume h: "cp \<le> 0 \<or> distinct (keys_of kvs) \<and> int (length kvs) \<le> cp"
  let ?n = "New cp :: 'v cache"
  have s0: "struct_inv ?n" by (rule New_inv [unfolded cache_inv_def, THEN conjunct1])
  have e: "fmdom (kv ?n) = {||}" "cap ?n = cp" "Size ?n = 0"
    by (simp_all add: New_def Size_def fcard_fempty)
  from h have "cap ?n \<le> 0 \<or> (distinct (keys_of kvs) \<and>
      set (keys_of kvs) \<inter> fset (fmdom (kv ?n)) = {} \<and>
      Size ?n + int (length kvs) \<le> cap ?n)"
    unfolding e by auto
  from run_sets [OF s0 this] obtain c' where c': "run ?n (sets kvs) = Some c'"
    "fmdom (kv c') = fmdom (kv ?n) |\<union>| fset_of_list (keys_of kvs)"
    by blast
  from c'(2) have c2: "fmdom (kv c') = fset_of_list (keys_of kvs)" by (simp only: e) simp
  from c2 have "fset (fmdom (kv c')) = set (keys_of kvs)"
    by (simp add: fset_of_list.rep_eq)
  moreover from this have "Size c' = int (card (set (keys_of kvs)))"
    by (simp add: Size_def fcard.rep_eq)
  ultimately show "\<exists>c'. run (New cp) (sets kvs) = Some c' \<and>
      fset (fmdom (kv c')) = set (keys_of kvs) \<and> Size c' = int (card (set (keys_of kvs)))"
    using c'(1) by blast
next
  assume h: "reachable c \<and> 0 < cap c \<and> Size c = cap c \<and> fmlookup (kv c) k = None"
  then have si: "struct_inv c" by (blast intro: reachable_inv)
  let ?c0 = "Evict sel 1 c"
  from h have full: "Set_full c" by (simp add: Set_full_def)
  have s0: "struct_inv ?c0" using si by (rule Evict_props(1))
  have sh: "shrunk c ?c0" using si by (rule Evict_props(2))
  have z0: "Size ?c0 = Size c - 1"
    using Evict_props(3) [OF si, of sel 1] h by simp
  have sub: "fmdom (kv ?c0) |\<subseteq>| fmdom (kv c)"
    using sh by (auto dest: shrunk_dom)
  from z0 h have "fcard (fmdom (kv c)) = Suc (fcard (fmdom (kv ?c0)))"
    by (simp add: Size_def)
  with sub obtain k0 where k0: "k0 |\<in>| fmdom (kv c)" "fmdom (kv ?c0) = fmdom (kv c) |-| {|k0|}"
    by (blast dest: fsubset_one_less_ex)
  from h have "k |\<notin>| fmdom (kv c)" by (simp add: fmdom_notI)
  with sub have nk: "k |\<notin>| fmdom (kv ?c0)" by auto
  from Set_locked_inv [OF s0, of k x] obtain c' where
    c': "Set_locked k x ?c0 = Some c'" "fmdom (kv c') = finsert k (fmdom (kv ?c0))"
    by blast
  from nk c'(2) have "Size c' = Size ?c0 + 1" by (rule Size_finsert)
  with z0 h have "Size c' = cap c" by simp
  moreover have "Set sel k x c = Some c'" using full c'(1) by (simp add: Set_def)
  ultimately show "\<exists>c' k0. Set sel k x c = Some c' \<and> Set_locked k x (Evict sel 1 c) = Some c' \<and>
      k0 |\<in>| fmdom (kv c) \<and> fmdom (kv (Evict sel 1 c)) = fmdom (kv c) |-| {|k0|} \<and>
      fmdom (kv c') = finsert k (fmdom (kv c) |-| {|k0|}) \<and> Size c' = cap c"
    using c' k0 by auto
qed

theorem capacity_policy_witness:
  "Set (\<lambda>_. 0) ''c'' (Some 3) (New 0 :: nat cache) = Set_locked ''c'' (Some 3) (New 0) \<and>
   (\<exists>c'. run (New 0 :: nat cache)
       (sets [(\<lambda>_. 0, ''a'', Some 1), (\<lambda>_. 0, ''b'', Some 2), (\<lambda>_. 0, ''a'', Some 3)]) = Some c' \<and>
     Size c' = 2) \<and>
   Size s_ab = 2 \<and> cap s_ab = 2 \<and>
   (\<exists>c' k0. Set (\<lambda>_. 0) ''c'' (Some 3) s_ab = Some c' \<and> k0 |\<in>| fmdom (kv s_ab) \<and>
      fmdom (kv c') = finsert ''c'' (fmdom (kv s_ab) |-| {|k0|}) \<and> Size c' = 2)"
proof -
  let ?kvs = "[(\<lambda>_. 0, ''a'', Some 1), (\<lambda>_. 0, ''b'', Some 2), (\<lambda>_. 0, ''a'', Some (3::nat))]"
  have h: "Size s_ab = 2" "cap s_ab = 2" "fmlookup (kv s_ab) ''c'' = None"
    by (simp_all add: s_ab_def Size_def fcard_finsert_if)
  have n: "cap (New 0 :: nat cache) \<le> 0" by (simp add: New_def)
  have "set (keys_of ?kvs) = {''a'', ''b''}" by (auto simp: keys_of_def)
  then have k: "int (card (set (keys_of ?kvs))) = 2" by simp
  note a = capacity_policy [of "New 0 :: nat cache" "\<lambda>_. 0" "''c''" "Some 3" 0 ?kvs]
  note b = capacity_policy [of s_ab "\<lambda>_. 0" "''c''" "Some 3" 0 ?kvs]
  from a n have 1: "Set (\<lambda>_. 0) ''c'' (Some 3) (New 0 :: nat cache) = Set_locked ''c'' (Some 3) (New 0)"
    by simp
  from a k have 2: "\<exists>c'. run (New 0 :: nat cache) (sets ?kvs) = Some c' \<and> Size c' = 2"
    by auto
  from b reachable_s_ab h have 3: "\<exists>c' k0. Set (\<lambda>_. 0) ''c'' (Some 3) s_ab = Some c' \<and>
      k0 |\<in>| fmdom (kv s_ab) \<and>
      fmdom (kv c') = finsert ''c'' (fmdom (kv s_ab) |-| {|k0|}) \<and> Size c' = 2"
    by auto
  from 1 2 3 h show ?thesis by simp
qed

section \<open>Set of a key that is in the cache, at capacity\<close>

text \<open>
  C1 says that \<^verbatim>\<open>Set(k, v)\<close> of a key that is in the cache updates its value in place, adds one
  to its frequency and evicts nothing, as the comment above \<^verbatim>\<open>Set\<close> in \<^verbatim>\<open>lfu.go\<close> does. The
  code tests the capacity and calls \<^verbatim>\<open>Evict(1)\<close> before it looks the key up. In the state
  with capacity 2 that holds \<^verbatim>\<open>a\<close> and \<^verbatim>\<open>b\<close>, both at frequency 1, \<^verbatim>\<open>Set(a, 9)\<close> therefore evicts:
  for every order of the map iteration, either \<^verbatim>\<open>b\<close> is gone and \<^verbatim>\<open>Size()\<close> has dropped from 2
  to 1, or \<^verbatim>\<open>a\<close> was evicted and stored again, as a new entry of frequency 1 and not 2.
\<close>

theorem Set_present_key_evicts:
  "\<exists>c'. Set sel ''a'' (Some 9) s_ab = Some c' \<and>
     fmlookup (kv s_ab) ''a'' = Some 0 \<and> key_freq s_ab ''a'' = Some 1 \<and>
     fmlookup (kv s_ab) ''b'' = Some 1 \<and> Size s_ab = 2 \<and> cap s_ab = 2 \<and>
     (fmlookup (kv c') ''b'' = None \<and> Size c' = 1 \<or>
      fmlookup (kv c') ''a'' = Some 2 \<and> key_freq c' ''a'' = Some 1)"
proof -
  have h: "fmlookup (kv s_ab) ''a'' = Some 0" "key_freq s_ab ''a'' = Some 1"
    "fmlookup (kv s_ab) ''b'' = Some 1" "Size s_ab = 2" "cap s_ab = 2"
    by (simp_all add: s_ab_def key_freq_def freq_at_def Size_def fcard_finsert_if)
  from pick_two [of sel "Suc 0" 0] show ?thesis
  proof
    assume p: "pick sel {|Suc 0, 0|} = Suc 0"
    have "\<exists>c'. Set sel ''a'' (Some 9) s_ab = Some c' \<and> fmlookup (kv c') ''b'' = None \<and> Size c' = 1"
      by (simp add: ev s_ab_def p)
    with h show ?thesis by blast
  next
    assume p: "pick sel {|Suc 0, 0|} = 0"
    have "\<exists>c'. Set sel ''a'' (Some 9) s_ab = Some c' \<and> fmlookup (kv c') ''a'' = Some 2 \<and>
        key_freq c' ''a'' = Some 1"
      by (simp add: ev s_ab_def p key_freq_def freq_at_def)
    with h show ?thesis by blast
  qed
qed

section \<open>Two callers of Set\<close>

text \<open>
  C2 says that the test of the capacity, the eviction and the insertion of one \<^verbatim>\<open>Set\<close> are
  one atomic unit. In the code the test is made before the lock is taken. With capacity 1
  and an empty cache, two callers that store the keys \<^verbatim>\<open>a\<close> and \<^verbatim>\<open>b\<close> and both make the test
  before either takes the lock both find room and both insert: \<^verbatim>\<open>Size()\<close> is 2 with capacity
  1. When the second caller starts after the first has returned, \<^verbatim>\<open>Size()\<close> is 1.
\<close>

theorem Set_test_outside_lock:
  "cap (New 1 :: nat cache) = 1 \<and> Size (New 1 :: nat cache) = 0 \<and>
   interleave [0, 1, 0, 1]
     ([(AtTest, sel, ''a'', Some 1), (AtTest, sel', ''b'', Some 2)], New 1) =
     Some ([(Returned, sel, ''a'', Some 1), (Returned, sel', ''b'', Some 2)], s_ab\<lparr>cap := 1\<rparr>) \<and>
   cap (s_ab\<lparr>cap := 1\<rparr>) = 1 \<and> Size (s_ab\<lparr>cap := 1\<rparr>) = 2 \<and>
   (\<exists>c. interleave [0, 0, 1, 1, 1]
       ([(AtTest, sel, ''a'', Some 1), (AtTest, sel', ''b'', Some 2)], New 1) =
       Some ([(Returned, sel, ''a'', Some 1), (Returned, sel', ''b'', Some 2)], c) \<and>
     cap c = 1 \<and> Size c = 1)"
  by (simp add: ev New_def s_ab_def pick_single)


end
